theory Spec2Isabelle
  imports Complex_Main "HOL-Library.AList" "HOL-Library.Word"
begin

section \<open>The Compress Image node: a shallow embedding\<close>

text \<open>
  The development follows \<^verbatim>\<open>nodes/CompressImage/CompressImage.node.ts\<close> (and its compiled twin
  under \<^verbatim>\<open>dist/\<close>, which has the same helper functions and the same loop).

  JavaScript numbers are modelled as \<^typ>\<open>real\<close>. For the quality and the size limit this
  is faithful: byte counts are integers far below \<open>2 ^ 53\<close>, \<open>Math.round\<close> and \<open>Math.floor\<close>
  return the exact mathematical result on every finite double, and the only quotient that is
  rounded afterwards, \<open>((100 - q) * 9) / 100\<close> for an integer \<open>q\<close> between 0 and 100, is a
  half-integer at \<open>q = 50\<close> only, where \<open>450 / 100 = 4.5\<close> is exact. The percentage of the
  compression summary is a quotient of two sizes times 100, and there the rounding of each
  operation to a double shows in the result: the model applies that rounding explicitly.
  \<open>NaN\<close> and the infinities are not numbers of the model.
\<close>

subsection \<open>Numbers\<close>

text \<open>\<open>Math.round\<close>: the nearest integer, a tie going towards \<open>+\<infinity>\<close>.\<close>

definition js_round :: "real \<Rightarrow> real" where
  "js_round x = of_int \<lfloor>x + 1 / 2\<rfloor>"

text \<open>\<open>function clamp(value, min, max) { return Math.min(Math.max(value, min), max); }\<close>\<close>

definition clamp :: "real \<Rightarrow> real \<Rightarrow> real \<Rightarrow> real" where
  "clamp v lo hi = min (max v lo) hi"

definition pngCompressionLevelFromQuality :: "real \<Rightarrow> real" where
  "pngCompressionLevelFromQuality quality =
     (let q = clamp (js_round quality) 0 100;
          level = js_round (((100 - q) * 9) / 100)
      in clamp level 0 9)"

text \<open>
  The rounding of an exact result to the nearest double, as every arithmetic operation of
  the engine does it, is a function \<open>fl\<close> that the host supplies. What is known of it: it
  leaves 0 alone, and in the range of the normal doubles its relative error is at most
  \<open>1 / 2 ^ 53\<close>.
\<close>

definition double_rounding :: "(real \<Rightarrow> real) \<Rightarrow> bool" where
  "double_rounding fl =
     (fl 0 = 0 \<and>
      (\<forall>x. 1 / 2 ^ 1022 \<le> \<bar>x\<bar> \<and> \<bar>x\<bar> \<le> 2 ^ 1023 \<longrightarrow> \<bar>fl x - x\<bar> \<le> \<bar>x\<bar> / 2 ^ 53))"

subsection \<open>Data\<close>

type_synonym bytes = "8 word list"

text \<open>The structured data of a record is a JSON object: its fields in insertion order.\<close>

datatype json =
    JNull
  | JBool bool
  | JNumber real
  | JString string
  | JArray "json list"
  | JObject "(string \<times> json) list"

text \<open>\<open>IBinaryData\<close>: a binary payload of a record with its metadata.\<close>

record binary_data =
  data :: bytes
  mimeType :: string
  fileName :: "string option"

text \<open>\<open>INodeExecutionData\<close>: \<open>json\<close> is always there, \<open>binary\<close> may be undefined.\<close>

record item =
  json :: "(string \<times> json) list"
  binary :: "(string \<times> binary_data) list option"

text \<open>The \<open>resize\<close> collection: each option may be absent.\<close>

record resize_spec =
  width :: "real option"
  height :: "real option"
  maintainAspectRatio :: "bool option"

text \<open>The node parameters as \<open>getNodeParameter\<close> resolves them for one record.\<close>

record node_parameters =
  inputSource :: string
  binaryPropertyName :: string
  base64FieldName :: string
  outputBinaryPropertyName :: string
  format :: string
  stripMetadata :: bool
  quality :: real
  resize :: resize_spec
  maxInputSizeMb :: real

text \<open>
  The errors of one record. The first three are the \<open>throw new Error(...)\<close> of the node,
  \<open>Thrown\<close> is an error raised by a host helper or by the codec, with its message.
\<close>

datatype error =
    NoBinaryData string
  | NotBase64String string
  | InputTooLarge nat int
  | Thrown string

text \<open>
  A \<open>sharp\<close> pipeline is built by chained calls and runs only in \<open>toBuffer\<close>: the model
  keeps the input buffer and the calls made on it, in order.
\<close>

datatype fit = Inside | Fill

datatype sharp_call =
    Rotate
  | Resize "int option" "int option" fit bool
  | WithMetadata
  | Jpeg real bool
  | Png real bool
  | Webp real
  | Avif real

record sharp =
  buffer :: bytes
  calls :: "sharp_call list"

text \<open>
  What the node takes from outside: the execution context \<open>this\<close> of n8n
  (\<open>continueOnFail\<close>, \<open>getNodeParameter\<close>, the two binary helpers), Node's
  \<open>Buffer.from(s, 'base64')\<close>, the rounding of the engine's double arithmetic, and the codec,
  which is the \<open>toBuffer\<close> of a pipeline.
  A helper or the codec may throw: \<open>Inl\<close> with the message of the error. The codec sees the whole pipeline, so a call that sharp
  rejects when it is made (an option out of range) is a failure of \<open>toBuffer\<close> here: both
  are caught by the same handler and nothing happens in between.
\<close>

record host =
  continueOnFail :: bool
  getNodeParameter :: "nat \<Rightarrow> node_parameters"
  getBinaryDataBuffer :: "nat \<Rightarrow> string \<Rightarrow> string + bytes"
  prepareBinaryData :: "bytes \<Rightarrow> string \<Rightarrow> string \<Rightarrow> string + binary_data"
  bufferFromBase64 :: "string \<Rightarrow> bytes"
  roundDouble :: "real \<Rightarrow> real"
  toBuffer :: "sharp \<Rightarrow> string + bytes"

subsection \<open>Error messages\<close>

text \<open>A byte count inside a template string: its decimal digits.\<close>

fun decimal :: "nat \<Rightarrow> string" where
  "decimal n =
     (if n < 10 then [''0123456789'' ! n]
      else decimal (n div 10) @ [''0123456789'' ! (n mod 10)])"

declare decimal.simps [simp del]

fun message :: "error \<Rightarrow> string" where
  "message (NoBinaryData name) =
     ''No binary data found under property '' @ [CHR 0x22] @ name @ [CHR 0x22]"
| "message (NotBase64String name) =
     ''Field '' @ [CHR 0x22] @ name @ [CHR 0x22] @ '' must contain a Base64 string''"
| "message (InputTooLarge n limit) =
     ''Input image is too large ('' @ decimal n @ '' bytes). Max allowed is ''
       @ decimal (nat limit) @ '' bytes.''"
| "message (Thrown m) = m"

subsection \<open>Format table\<close>

definition getMimeAndExt :: "string \<Rightarrow> string \<times> string" where
  "getMimeAndExt fmt =
     (if fmt = ''jpg'' \<or> fmt = ''jpeg'' then (''image/jpeg'', ''jpg'')
      else if fmt = ''png'' then (''image/png'', ''png'')
      else if fmt = ''webp'' then (''image/webp'', ''webp'')
      else if fmt = ''avif'' then (''image/avif'', ''avif'')
      else (''application/octet-stream'', ''bin''))"

subsection \<open>Input resolution\<close>

text \<open>
  The match of \<open>/^data:[^;]+;base64,/\<close> at the start of a string: \<open>Some\<close> of what follows the
  matched prefix, \<open>None\<close> when the expression does not match. The class \<open>[^;]+\<close> cannot run over
  a \<open>;\<close>, so the only possible match takes every character up to the first \<open>;\<close> after
  \<open>data:\<close>, at least one, and \<open>;base64,\<close> must follow at once.
\<close>

definition data_uri_match :: "string \<Rightarrow> string option" where
  "data_uri_match s =
     (if take 5 s = ''data:'' then
        (let rest = drop 5 s;
             m = takeWhile (\<lambda>c. c \<noteq> CHR '';'') rest;
             after = drop (length m) rest
         in if m \<noteq> [] \<and> take 8 after = '';base64,'' then Some (drop 8 after) else None)
      else None)"

text \<open>\<open>const cleaned = b64raw.replace(/^data:[^;]+;base64,/, '')\<close>\<close>

definition cleaned :: "string \<Rightarrow> string" where
  "cleaned b64raw = (case data_uri_match b64raw of None \<Rightarrow> b64raw | Some rest \<Rightarrow> rest)"

text \<open>
  \<open>items[i].binary?.[binaryPropertyName]\<close> is a property access on a plain object: a name that
  is no slot of the record still finds the members the object inherits from
  \<open>Object.prototype\<close>. Such a member is a function (for \<open>__proto__\<close> the prototype object), so
  it passes the test \<open>!binaryData\<close> and its \<open>fileName\<close> is undefined.
\<close>

definition object_prototype_names :: "string list" where
  "object_prototype_names =
     [''constructor'', ''__defineGetter__'', ''__defineSetter__'', ''hasOwnProperty'',
      ''__lookupGetter__'', ''__lookupSetter__'', ''isPrototypeOf'', ''propertyIsEnumerable'',
      ''toString'', ''valueOf'', ''__proto__'', ''toLocaleString'']"

text \<open>The \<open>fileName\<close> of what the access finds, \<open>None\<close> when it finds nothing.\<close>

definition binary_lookup :: "item \<Rightarrow> string \<Rightarrow> string option option" where
  "binary_lookup itm slot =
     (case binary itm of
        None \<Rightarrow> None
      | Some b \<Rightarrow>
          (case map_of b slot of
             Some binaryData \<Rightarrow> Some (fileName binaryData)
           | None \<Rightarrow> if slot \<in> set object_prototype_names then Some None else None))"

text \<open>
  The two input modes. The result is \<open>inputBuffer\<close> with \<open>originalFileName\<close>; the latter is
  \<open>None\<close> where the source has \<open>undefined\<close>.
\<close>

definition resolveInput ::
  "host \<Rightarrow> node_parameters \<Rightarrow> nat \<Rightarrow> item \<Rightarrow> error + (bytes \<times> string option)" where
  "resolveInput h p i itm =
     (if inputSource p = ''binary'' then
        (case binary_lookup itm (binaryPropertyName p) of
           None \<Rightarrow> Inl (NoBinaryData (binaryPropertyName p))
         | Some originalFileName \<Rightarrow>
             (case getBinaryDataBuffer h i (binaryPropertyName p) of
                Inl m \<Rightarrow> Inl (Thrown m)
              | Inr inputBuffer \<Rightarrow> Inr (inputBuffer, originalFileName)))
      else
        (case map_of (json itm) (base64FieldName p) of
           Some (JString b64raw) \<Rightarrow>
             if b64raw = [] then Inl (NotBase64String (base64FieldName p))
             else Inr (bufferFromBase64 h (cleaned b64raw), Some ''input'')
         | _ \<Rightarrow> Inl (NotBase64String (base64FieldName p))))"

subsection \<open>Size guard\<close>

text \<open>\<open>const maxBytes = Math.max(1, Math.floor(maxInputSizeMb)) * 1024 * 1024\<close>\<close>

definition maxBytes :: "real \<Rightarrow> int" where
  "maxBytes mb = max 1 \<lfloor>mb\<rfloor> * 1024 * 1024"

definition sizeGuard :: "nat \<Rightarrow> real \<Rightarrow> error + unit" where
  "sizeGuard originalSize mb =
     (if int originalSize > maxBytes mb then Inl (InputTooLarge originalSize (maxBytes mb))
      else Inr ())"

subsection \<open>The pipeline\<close>

text \<open>
  \<open>typeof d === 'number' && d > 0 ? Math.floor(d) : undefined\<close>, for the width and for the
  height.
\<close>

definition resizeDimension :: "real option \<Rightarrow> int option" where
  "resizeDimension d = (case d of None \<Rightarrow> None | Some v \<Rightarrow> if v > 0 then Some \<lfloor>v\<rfloor> else None)"

text \<open>The truth value of a dimension in \<open>if (width || height)\<close>: \<open>undefined\<close> and \<open>0\<close> are falsy.\<close>

definition truthy :: "int option \<Rightarrow> bool" where
  "truthy d = (case d of None \<Rightarrow> False | Some n \<Rightarrow> n \<noteq> 0)"

text \<open>The calls of a pipeline that resize.\<close>

fun is_resize :: "sharp_call \<Rightarrow> bool" where
  "is_resize (Resize w h f e) = True"
| "is_resize _ = False"

definition chain :: "sharp \<Rightarrow> sharp_call \<Rightarrow> sharp" where
  "chain img c = img\<lparr>calls := calls img @ [c]\<rparr>"

text \<open>
  From \<open>sharp(inputBuffer).rotate()\<close> to the end of the \<open>switch (format)\<close>. The quality is
  clamped when the parameters are read.
\<close>

definition buildImage :: "node_parameters \<Rightarrow> bytes \<Rightarrow> sharp" where
  "buildImage p inputBuffer =
     (let q = clamp (quality p) 0 100;
          img0 = chain \<lparr>buffer = inputBuffer, calls = []\<rparr> Rotate;
          w = resizeDimension (width (resize p));
          h = resizeDimension (height (resize p));
          keepRatio = (maintainAspectRatio (resize p) \<noteq> Some False);
          img1 = (if truthy w \<or> truthy h
                    then chain img0 (Resize w h (if keepRatio then Inside else Fill) True)
                    else img0);
          img2 = (if \<not> stripMetadata p then chain img1 WithMetadata else img1)
      in if format p = ''jpg'' then chain img2 (Jpeg q True)
         else if format p = ''png'' then chain img2 (Png (pngCompressionLevelFromQuality q) True)
         else if format p = ''webp'' then chain img2 (Webp q)
         else if format p = ''avif'' then chain img2 (Avif q)
         else img2)"

subsection \<open>The result\<close>

text \<open>
  \<open>originalSize > 0 ? ((originalSize - newSize) / originalSize) * 100 : 0\<close>. The difference of
  two sizes is exact; the quotient and the product are each rounded to a double by \<open>fl\<close>.
\<close>

definition percentReduction :: "(real \<Rightarrow> real) \<Rightarrow> nat \<Rightarrow> nat \<Rightarrow> real" where
  "percentReduction fl originalSize newSize =
     (if originalSize > 0
      then fl (fl ((real originalSize - real newSize) / real originalSize) * 100)
      else 0)"

text \<open>
  \<open>path.parse\<close> of Node, in its POSIX variant (\<open>lib/path.js\<close>, \<open>posix.parse\<close>), as far as the
  fields \<open>base\<close>, \<open>ext\<close> and \<open>name\<close> go. It scans the path from its end. The state of the scan:
  \<open>end\<close> is \<open>endPos\<close> here, and \<open>-1\<close> stands for "not seen yet" as in the source.
\<close>

record scan =
  startDot :: int
  startPart :: int
  endPos :: int
  matchedSlash :: bool
  preDotState :: int

text \<open>The body of the loop for a character that is no slash, at index \<open>i\<close>.\<close>

definition scan_char :: "nat \<Rightarrow> char \<Rightarrow> scan \<Rightarrow> scan" where
  "scan_char i code st =
     (let st1 = (if endPos st = -1 then st\<lparr>endPos := int i + 1, matchedSlash := False\<rparr> else st)
      in if code = CHR ''.'' then
           (if startDot st1 = -1 then st1\<lparr>startDot := int i\<rparr>
            else if preDotState st1 \<noteq> 1 then st1\<lparr>preDotState := 1\<rparr>
            else st1)
         else if startDot st1 \<noteq> -1 then st1\<lparr>preDotState := -1\<rparr>
         else st1)"

text \<open>
  \<open>for (; i >= start; --i)\<close>, with \<open>i + 1\<close> as the third argument: a slash after the last
  component ends the loop, the slashes that end the path are skipped.
\<close>

fun parse_loop :: "string \<Rightarrow> nat \<Rightarrow> nat \<Rightarrow> scan \<Rightarrow> scan" where
  "parse_loop path start 0 st = st"
| "parse_loop path start (Suc i) st =
     (if i < start then st
      else if path ! i = CHR ''/'' then
        (if \<not> matchedSlash st then st\<lparr>startPart := int i + 1\<rparr>
         else parse_loop path start i st)
      else parse_loop path start i (scan_char i (path ! i) st))"

text \<open>\<open>path.slice(a, b)\<close> for indices within the path.\<close>

definition slice :: "string \<Rightarrow> int \<Rightarrow> int \<Rightarrow> string" where
  "slice s a b = take (nat (b - a)) (drop (nat a) s)"

record parsed_path =
  path_base :: string
  path_ext :: string
  path_name :: string

definition path_parse :: "string \<Rightarrow> parsed_path" where
  "path_parse path =
     (if path = [] then \<lparr>path_base = [], path_ext = [], path_name = []\<rparr>
      else
        (let isAbsolute = (hd path = CHR ''/'');
             start = (if isAbsolute then 1 else 0);
             st = parse_loop path start (length path)
                    \<lparr>startDot = -1, startPart = 0, endPos = -1, matchedSlash = True,
                     preDotState = 0\<rparr>
         in if endPos st = -1 then \<lparr>path_base = [], path_ext = [], path_name = []\<rparr>
            else
              (let start2 = (if startPart st = 0 \<and> isAbsolute then 1 else startPart st) in
               if startDot st = -1 \<or> preDotState st = 0 \<or>
                  (preDotState st = 1 \<and> startDot st = endPos st - 1
                     \<and> startDot st = startPart st + 1)
               then \<lparr>path_base = slice path start2 (endPos st), path_ext = [],
                     path_name = slice path start2 (endPos st)\<rparr>
               else \<lparr>path_base = slice path start2 (endPos st),
                     path_ext = slice path (startDot st) (endPos st),
                     path_name = slice path start2 (startDot st)\<rparr>)))"

text \<open>The loop over a run of \<open>k\<close> characters from index \<open>lo\<close> on, none of them a slash.\<close>

fun scan_run :: "string \<Rightarrow> nat \<Rightarrow> nat \<Rightarrow> scan \<Rightarrow> scan" where
  "scan_run path lo 0 st = st"
| "scan_run path lo (Suc k) st = scan_run path lo k (scan_char (lo + k) (path ! (lo + k)) st)"

text \<open>
  \<open>baseName = originalFileName ? path.parse(originalFileName).name : 'image'\<close>: an undefined and
  an empty file name are both falsy.
\<close>

definition baseName :: "string option \<Rightarrow> string" where
  "baseName originalFileName =
     (case originalFileName of
        None \<Rightarrow> ''image''
      | Some f \<Rightarrow> if f = [] then ''image'' else path_name (path_parse f))"

definition outFileName :: "string option \<Rightarrow> string \<Rightarrow> string" where
  "outFileName originalFileName fmt = baseName originalFileName @ ''.'' @ snd (getMimeAndExt fmt)"

definition compression :: "(real \<Rightarrow> real) \<Rightarrow> nat \<Rightarrow> nat \<Rightarrow> string \<Rightarrow> json" where
  "compression fl originalSize newSize fmt =
     JObject [(''originalSize'', JNumber (real originalSize)),
              (''newSize'', JNumber (real newSize)),
              (''percentReduction'', JNumber (percentReduction fl originalSize newSize)),
              (''format'', JString fmt)]"

text \<open>\<open>{ ...items[i].binary, [outputBinaryPropertyName]: binary }\<close>: spreading \<open>undefined\<close> adds nothing.\<close>

definition spread_binary :: "(string \<times> binary_data) list option \<Rightarrow> (string \<times> binary_data) list" where
  "spread_binary b = (case b of None \<Rightarrow> [] | Some slots \<Rightarrow> slots)"

subsection \<open>One record\<close>

text \<open>
  The body of the \<open>try\<close> block for record \<open>i\<close>: \<open>Inl\<close> is what reaches the \<open>catch\<close>, \<open>Inr\<close> is the
  \<open>newItem\<close> pushed on \<open>returnData\<close>.
\<close>

definition processItem :: "host \<Rightarrow> nat \<Rightarrow> item \<Rightarrow> error + item" where
  "processItem h i itm =
     (let p = getNodeParameter h i in
      case resolveInput h p i itm of
        Inl err \<Rightarrow> Inl err
      | Inr (inputBuffer, originalFileName) \<Rightarrow>
          (let originalSize = length inputBuffer in
           case sizeGuard originalSize (maxInputSizeMb p) of
             Inl err \<Rightarrow> Inl err
           | Inr _ \<Rightarrow>
               (case toBuffer h (buildImage p inputBuffer) of
                  Inl m \<Rightarrow> Inl (Thrown m)
                | Inr outputBuffer \<Rightarrow>
                    (let newSize = length outputBuffer in
                     case prepareBinaryData h outputBuffer
                            (outFileName originalFileName (format p))
                            (fst (getMimeAndExt (format p))) of
                       Inl m \<Rightarrow> Inl (Thrown m)
                     | Inr bin \<Rightarrow>
                         Inr \<lparr>json = AList.update ''compression''
                                       (compression (roundDouble h) originalSize newSize
                                          (format p)) (json itm),
                              binary = Some (AList.update (outputBinaryPropertyName p) bin
                                              (spread_binary (binary itm)))\<rparr>))))"

text \<open>The record pushed by the \<open>catch\<close> block when \<open>continueOnFail()\<close> holds.\<close>

definition errorItem :: "error \<Rightarrow> item \<Rightarrow> item" where
  "errorItem err itm = \<lparr>json = [(''error'', JString (message err))], binary = binary itm\<rparr>"

subsection \<open>The batch\<close>

text \<open>
  The \<open>for\<close> loop of \<open>execute\<close>, with its state: the index \<open>i\<close> and \<open>returnData\<close>. \<open>Inr\<close> is
  \<open>returnData\<close> when the loop ends; \<open>Inl\<close> is the \<open>throw err\<close> of the \<open>catch\<close> block, with the
  \<open>returnData\<close> of that moment beside the error.
\<close>

function execute_loop ::
  "host \<Rightarrow> item list \<Rightarrow> nat \<Rightarrow> item list \<Rightarrow> (error \<times> item list) + item list" where
  "execute_loop h items i returnData =
     (if i < length items then
        (case processItem h i (items ! i) of
           Inr newItem \<Rightarrow> execute_loop h items (i + 1) (returnData @ [newItem])
         | Inl err \<Rightarrow>
             if continueOnFail h
             then execute_loop h items (i + 1) (returnData @ [errorItem err (items ! i)])
             else Inl (err, returnData))
      else Inr returnData)"
  by pat_completeness auto

termination
  by (relation "measure (\<lambda>(h, items, i, returnData). length items - i)") auto

declare execute_loop.simps [simp del]

text \<open>
  \<open>execute\<close>: the promise resolves to \<open>[returnData]\<close> or rejects with the error thrown. The
  local \<open>returnData\<close> does not leave a call that throws.
\<close>

definition execute :: "host \<Rightarrow> item list \<Rightarrow> error + item list list" where
  "execute h items =
     (case execute_loop h items 0 [] of
        Inl (err, returnData) \<Rightarrow> Inl err
      | Inr returnData \<Rightarrow> Inr [returnData])"

section \<open>A host for the examples\<close>

text \<open>
  The theorems below hold for every host. Where one is run on a concrete batch, the host is
  this one. \<open>Buffer.from(s, 'base64')\<close> follows Node's lenient decoder: it stops at the first
  \<open>=\<close>, skips every character outside the two Base64 alphabets, and drops the bits of an
  incomplete last byte.
\<close>

definition unbase64 :: "char \<Rightarrow> nat option" where
  "unbase64 c =
     (let n = (of_char c :: nat) in
      if 65 \<le> n \<and> n \<le> 90 then Some (n - 65)
      else if 97 \<le> n \<and> n \<le> 122 then Some (n - 71)
      else if 48 \<le> n \<and> n \<le> 57 then Some (n + 4)
      else if c = CHR ''+'' \<or> c = CHR ''-'' then Some 62
      else if c = CHR ''/'' \<or> c = CHR ''_'' then Some 63
      else None)"

fun decode_sextets :: "nat list \<Rightarrow> nat list" where
  "decode_sextets (a # b # c # d # rest) =
     (a * 4 + b div 16) # ((b mod 16) * 16 + c div 4) # ((c mod 4) * 64 + d) # decode_sextets rest"
| "decode_sextets [a, b, c] = [a * 4 + b div 16, (b mod 16) * 16 + c div 4]"
| "decode_sextets [a, b] = [a * 4 + b div 16]"
| "decode_sextets rest = []"

definition node_base64_decode :: "string \<Rightarrow> bytes" where
  "node_base64_decode s =
     map of_nat (decode_sextets (List.map_filter unbase64 (takeWhile (\<lambda>c. c \<noteq> CHR ''='') s)))"

text \<open>
  A stand-in for the codec: it rejects an empty input, as sharp does, and otherwise answers
  with the first two bytes of the input.
\<close>

definition demo_codec :: "sharp \<Rightarrow> string + bytes" where
  "demo_codec img =
     (if buffer img = [] then Inl ''Input Buffer is empty'' else Inr (take 2 (buffer img)))"

text \<open>
  The binary helpers of n8n over payloads kept in memory. The sizes of the examples give
  quotients and products that are doubles, so their rounding changes nothing.
\<close>

definition demo_host :: "bool \<Rightarrow> node_parameters \<Rightarrow> item list \<Rightarrow> host" where
  "demo_host tolerant p items =
     \<lparr>continueOnFail = tolerant,
      getNodeParameter = (\<lambda>i. p),
      getBinaryDataBuffer = (\<lambda>i name.
         case map_of (spread_binary (binary (items ! i))) name of
           None \<Rightarrow> Inl ''no such binary property''
         | Some b \<Rightarrow> Inr (data b)),
      prepareBinaryData = (\<lambda>buf name mime. Inr \<lparr>data = buf, mimeType = mime, fileName = Some name\<rparr>),
      bufferFromBase64 = node_base64_decode,
      roundDouble = (\<lambda>x. x),
      toBuffer = demo_codec\<rparr>"

text \<open>The defaults of the node description, for the binary and for the Base64 input mode.\<close>

definition demo_parameters :: "string \<Rightarrow> string \<Rightarrow> node_parameters" where
  "demo_parameters source fmt =
     \<lparr>inputSource = source, binaryPropertyName = ''data'', base64FieldName = ''imageBase64'',
      outputBinaryPropertyName = ''data'', format = fmt, stripMetadata = True, quality = 80,
      resize = \<lparr>width = None, height = None, maintainAspectRatio = None\<rparr>,
      maxInputSizeMb = 25\<rparr>"

text \<open>The three records of the examples: the second has no payload under \<open>data\<close>.\<close>

definition photo :: "string \<Rightarrow> bytes \<Rightarrow> item" where
  "photo name bs =
     \<lparr>json = [(''id'', JString name)],
      binary = Some [(''data'', \<lparr>data = bs, mimeType = ''image/tiff'', fileName = Some name\<rparr>)]\<rparr>"

definition demo_batch :: "item list" where
  "demo_batch =
     [photo ''a.tiff'' [1, 2, 3, 4],
      \<lparr>json = [(''id'', JString ''b'')],
       binary = Some [(''other'', \<lparr>data = [9], mimeType = ''text/plain'', fileName = None\<rparr>)]\<rparr>,
      photo ''c.tiff'' [5, 6, 7, 8]]"

text \<open>A photo whose data already has a field named \<open>compression\<close>.\<close>

definition tagged_photo :: item where
  "tagged_photo =
     \<lparr>json = [(''compression'', JString ''lossless''), (''id'', JString ''t.tiff'')],
      binary = Some [(''data'', \<lparr>data = [1, 2, 3, 4], mimeType = ''image/tiff'',
                                  fileName = Some ''t.tiff''\<rparr>)]\<rparr>"

text \<open>What the demo host makes of a four-byte photo with the PNG defaults.\<close>

definition compressed :: "string \<Rightarrow> string \<Rightarrow> bytes \<Rightarrow> item" where
  "compressed name outName bs =
     \<lparr>json = [(''id'', JString name),
              (''compression'', JObject [(''originalSize'', JNumber 4), (''newSize'', JNumber 2),
                 (''percentReduction'', JNumber 50), (''format'', JString ''png'')])],
      binary = Some [(''data'', \<lparr>data = bs, mimeType = ''image/png'', fileName = Some outName\<rparr>)]\<rparr>"

section \<open>Words of the specification\<close>

text \<open>A dimension that is a positive number, and one that is a number not below 1.\<close>

definition positive :: "real option \<Rightarrow> bool" where
  "positive d = (case d of None \<Rightarrow> False | Some v \<Rightarrow> 0 < v)"

definition at_least_one :: "real option \<Rightarrow> bool" where
  "at_least_one d = (case d of None \<Rightarrow> False | Some v \<Rightarrow> 1 \<le> v)"

section \<open>Properties\<close>

subsection \<open>Quality mapping\<close>

lemma js_round_of_int: "js_round (of_int q) = of_int q"
proof -
  have "\<lfloor>real_of_int q + 1 / 2\<rfloor> = q" by linarith
  then show ?thesis by (simp add: js_round_def)
qed

lemma js_round_level:
  "js_round (((100 - of_int q) * 9) / 100) = of_int (((100 - q) * 9 + 50) div 100)"
proof -
  have "(100 - real_of_int q) * 9 / 100 + 1 / 2 = real_of_int ((100 - q) * 9 + 50) / real_of_int 100"
    by (simp add: field_simps)
  then have "\<lfloor>(100 - real_of_int q) * 9 / 100 + 1 / 2\<rfloor> = ((100 - q) * 9 + 50) div 100"
    by (simp only: floor_divide_of_int_eq)
  then show ?thesis by (simp add: js_round_def)
qed

lemma clamp_of_int: "clamp (of_int v) (of_int lo) (of_int hi) = of_int (min (max v lo) hi)"
  by (simp add: clamp_def)

lemma clamp_id: "lo \<le> v \<Longrightarrow> v \<le> hi \<Longrightarrow> clamp v lo hi = v"
  by (simp add: clamp_def)

lemma level_bounds:
  fixes q :: int
  assumes "0 \<le> q" "q \<le> 100"
  shows "0 \<le> ((100 - q) * 9 + 50) div 100" "((100 - q) * 9 + 50) div 100 \<le> 9"
  using assms by auto

lemma png_level_of_int:
  fixes q :: int
  assumes "0 \<le> q" "q \<le> 100"
  shows "pngCompressionLevelFromQuality (of_int q) = of_int (((100 - q) * 9 + 50) div 100)"
proof -
  have q: "clamp (js_round (of_int q)) 0 100 = of_int q"
    using assms by (simp add: js_round_of_int clamp_id)
  have "clamp (real_of_int (((100 - q) * 9 + 50) div 100)) 0 9 = real_of_int (((100 - q) * 9 + 50) div 100)"
    using level_bounds[OF assms] by (intro clamp_id) simp_all
  then show ?thesis
    unfolding pngCompressionLevelFromQuality_def Let_def q js_round_level .
qed

lemma last_calls_png:
  "format p = ''png'' \<Longrightarrow>
   last (calls (buildImage p buf)) = Png (pngCompressionLevelFromQuality (clamp (quality p) 0 100)) True"
  by (simp add: buildImage_def chain_def Let_def)

text \<open>
  Claim C1. For every integer quality \<open>q\<close> from 0 to 100, the PNG compression level is
  \<open>round((100 - q) * 9 / 100)\<close> clamped to \<open>[0, 9]\<close>, with \<open>Math.round\<close> as the rounding: a tie
  goes up, which in integers is \<open>((100 - q) * 9 + 50) div 100\<close>. This is the level the PNG
  encoder is called with. Quality 100 gives level 0, quality 80 level 2, quality 50 level 5
  and quality 0 level 9.
\<close>

theorem png_level_of_integer_quality:
  fixes q :: int
  assumes "0 \<le> q" and "q \<le> 100"
  shows "pngCompressionLevelFromQuality (of_int q) = clamp (js_round (((100 - of_int q) * 9) / 100)) 0 9
       \<and> pngCompressionLevelFromQuality (of_int q) = of_int (((100 - q) * 9 + 50) div 100)
       \<and> (\<forall>p buf. format p = ''png'' \<and> quality p = of_int q \<longrightarrow>
            last (calls (buildImage p buf)) = Png (of_int (((100 - q) * 9 + 50) div 100)) True)
       \<and> pngCompressionLevelFromQuality 100 = 0
       \<and> pngCompressionLevelFromQuality 80 = 2
       \<and> pngCompressionLevelFromQuality 50 = 5
       \<and> pngCompressionLevelFromQuality 0 = 9"
proof -
  let ?L = "((100 - q) * 9 + 50) div 100"
  have a: "pngCompressionLevelFromQuality (of_int q) = of_int ?L"
    by (rule png_level_of_int[OF assms])
  have "clamp (js_round (((100 - of_int q) * 9) / 100)) 0 9 = real_of_int ?L"
    unfolding js_round_level using level_bounds[OF assms] by (intro clamp_id) simp_all
  with a have b: "pngCompressionLevelFromQuality (of_int q) = clamp (js_round (((100 - of_int q) * 9) / 100)) 0 9"
    by simp
  have c: "\<forall>p buf. format p = ''png'' \<and> quality p = of_int q \<longrightarrow>
            last (calls (buildImage p buf)) = Png (of_int ?L) True"
  proof (intro allI impI)
    fix p :: node_parameters and buf
    assume h: "format p = ''png'' \<and> quality p = of_int q"
    have "clamp (quality p) 0 100 = of_int q"
      using h assms by (simp add: clamp_id)
    then show "last (calls (buildImage p buf)) = Png (of_int ?L) True"
      using h a by (simp add: last_calls_png)
  qed
  have d: "pngCompressionLevelFromQuality 100 = 0" "pngCompressionLevelFromQuality 80 = 2"
    "pngCompressionLevelFromQuality 50 = 5" "pngCompressionLevelFromQuality 0 = 9"
    by (simp_all add: pngCompressionLevelFromQuality_def clamp_def js_round_def)
  from a b c d show ?thesis by blast
qed

theorem png_level_of_integer_quality_witness:
  "(0::int) \<le> 50 \<and> (50::int) \<le> 100
   \<and> pngCompressionLevelFromQuality (of_int 50) = of_int (((100 - 50) * 9 + 50) div 100)
   \<and> last (calls (buildImage ((demo_parameters ''binary'' ''png'')\<lparr>quality := of_int 50\<rparr>) [1, 2, 3]))
       = Png 5 True"
proof -
  have h1: "(0::int) \<le> 50" and h2: "(50::int) \<le> 100" by simp_all
  from png_level_of_integer_quality[OF h1 h2] show ?thesis
    by (simp add: demo_parameters_def)
qed

text \<open>
  Claim C10. \<open>pngCompressionLevelFromQuality\<close> is defined on every real quality: the input is
  first rounded to the nearest integer and clamped to \<open>[0, 100]\<close> (the function takes the same
  value on the input and on its rounded and clamped form), and the result is an integer
  from 0 to 9.
\<close>

theorem png_level_total:
  "pngCompressionLevelFromQuality x = pngCompressionLevelFromQuality (clamp (js_round x) 0 100)
   \<and> clamp (js_round x) 0 100 = of_int (min (max \<lfloor>x + 1 / 2\<rfloor> 0) 100)
   \<and> pngCompressionLevelFromQuality x = of_int (((100 - min (max \<lfloor>x + 1 / 2\<rfloor> 0) 100) * 9 + 50) div 100)
   \<and> (\<exists>n::int. 0 \<le> n \<and> n \<le> 9 \<and> pngCompressionLevelFromQuality x = of_int n)"
proof -
  let ?q = "min (max \<lfloor>x + 1 / 2\<rfloor> 0) 100"
  have q: "clamp (js_round x) 0 100 = of_int ?q"
    by (simp add: clamp_def js_round_def)
  have qb: "0 \<le> ?q" "?q \<le> 100" by simp_all
  have same: "pngCompressionLevelFromQuality x = pngCompressionLevelFromQuality (of_int ?q)"
    unfolding pngCompressionLevelFromQuality_def q
    using qb by (simp only: js_round_of_int clamp_id[of 0 "of_int ?q" 100] of_int_0_le_iff of_int_le_iff of_int_numeral of_int_0 Let_def)
  have lvl: "pngCompressionLevelFromQuality x = of_int (((100 - ?q) * 9 + 50) div 100)"
    using same png_level_of_int[OF qb] by simp
  have "\<exists>n::int. 0 \<le> n \<and> n \<le> 9 \<and> pngCompressionLevelFromQuality x = of_int n"
    using lvl level_bounds[OF qb] by blast
  with q same lvl show ?thesis by simp
qed

subsection \<open>Size guard\<close>

lemma maxBytes_pos: "0 < maxBytes m"
  by (simp add: maxBytes_def)

text \<open>
  Claim C3. For an input of \<open>n\<close> bytes and a configured limit of \<open>m\<close> megabytes, the guard
  raises its error exactly when \<open>n > max(1, floor(m)) * 1024 * 1024\<close>: an input of exactly
  that many bytes passes, one byte more fails.
\<close>

theorem size_guard_boundary:
  "(sizeGuard n m = Inl (InputTooLarge n (max 1 \<lfloor>m\<rfloor> * 1024 * 1024)))
     = (int n > max 1 \<lfloor>m\<rfloor> * 1024 * 1024)
   \<and> (sizeGuard n m = Inr ()) = (int n \<le> max 1 \<lfloor>m\<rfloor> * 1024 * 1024)
   \<and> (\<exists>e. sizeGuard n m = Inl e) = (int n > max 1 \<lfloor>m\<rfloor> * 1024 * 1024)
   \<and> sizeGuard (nat (max 1 \<lfloor>m\<rfloor> * 1024 * 1024)) m = Inr ()
   \<and> sizeGuard (nat (max 1 \<lfloor>m\<rfloor> * 1024 * 1024) + 1) m
       = Inl (InputTooLarge (nat (max 1 \<lfloor>m\<rfloor> * 1024 * 1024) + 1) (max 1 \<lfloor>m\<rfloor> * 1024 * 1024))"
proof -
  let ?B = "max 1 \<lfloor>m\<rfloor> * 1024 * 1024"
  have B: "maxBytes m = ?B" by (simp add: maxBytes_def)
  have pos: "0 < ?B" using maxBytes_pos[of m] B by simp
  have 1: "(sizeGuard n m = Inl (InputTooLarge n ?B)) = (int n > ?B)"
    unfolding sizeGuard_def B by simp
  have 2: "(sizeGuard n m = Inr ()) = (int n \<le> ?B)"
    unfolding sizeGuard_def B by auto
  have 3: "(\<exists>e. sizeGuard n m = Inl e) = (int n > ?B)"
    unfolding sizeGuard_def B by auto
  have 4: "sizeGuard (nat ?B) m = Inr ()"
    unfolding sizeGuard_def B using pos by simp
  have 5: "sizeGuard (nat ?B + 1) m = Inl (InputTooLarge (nat ?B + 1) ?B)"
    unfolding sizeGuard_def B using pos by simp
  from 1 2 3 4 5 show ?thesis by blast
qed

theorem size_guard_boundary_witness:
  "sizeGuard 26214400 25 = Inr () \<and> sizeGuard 26214401 25 = Inl (InputTooLarge 26214401 26214400)"
  using size_guard_boundary[of 26214400 25] size_guard_boundary[of 26214401 25] by simp

text \<open>
  In a run, a record ends with this error exactly when its input was resolved and is longer
  than the limit; the codec plays no part in it.
\<close>

lemma processItem_too_large:
  "(processItem h i itm = Inl (InputTooLarge a b)) =
   (\<exists>buf f. resolveInput h (getNodeParameter h i) i itm = Inr (buf, f) \<and> a = length buf
       \<and> b = maxBytes (maxInputSizeMb (getNodeParameter h i)) \<and> int (length buf) > b)"
  by (auto simp: processItem_def sizeGuard_def resolveInput_def Let_def
      split: sum.splits prod.splits if_splits option.splits json.splits)

subsection \<open>Compression statistics\<close>

text \<open>A rounded value is as close to the exact one as the rounding allows, and of its sign.\<close>

lemma rounding_error:
  assumes "double_rounding fl" and "1 / 2 ^ 53 \<le> \<bar>x\<bar>" and "\<bar>x\<bar> \<le> 2 ^ 61"
  shows "\<bar>fl x - x\<bar> \<le> \<bar>x\<bar> / 2 ^ 53"
proof -
  have "(1::real) / 2 ^ 1022 \<le> 1 / 2 ^ 53"
    by (intro divide_left_mono power_increasing) simp_all
  then have lo: "1 / 2 ^ 1022 \<le> \<bar>x\<bar>" using assms(2) by linarith
  have "(2::real) ^ 61 \<le> 2 ^ 1023" by (intro power_increasing) simp_all
  then have hi: "\<bar>x\<bar> \<le> 2 ^ 1023" using assms(3) by linarith
  show ?thesis using assms(1) lo hi unfolding double_rounding_def by blast
qed

lemma rounding_sign:
  fixes x y :: real
  assumes "\<bar>y - x\<bar> \<le> \<bar>x\<bar> / 2 ^ 53"
  shows "(x < 0 \<longrightarrow> y < 0) \<and> (0 < x \<longrightarrow> 0 < y)"
proof -
  have "\<bar>x\<bar> / 2 ^ 53 < \<bar>x\<bar>" if "x \<noteq> 0"
  proof -
    have "\<bar>x\<bar> / 2 ^ 53 < \<bar>x\<bar> / 1"
      using that by (intro divide_strict_left_mono) simp_all
    then show ?thesis by simp
  qed
  then show ?thesis using assms by (cases "x = 0") (auto simp: abs_if split: if_splits)
qed

lemma rounding_size:
  fixes x y :: real
  assumes "\<bar>y - x\<bar> \<le> \<bar>x\<bar> / 2 ^ 53"
  shows "\<bar>x\<bar> * (1 - 1 / 2 ^ 53) \<le> \<bar>y\<bar>" and "\<bar>y\<bar> \<le> \<bar>x\<bar> * (1 + 1 / 2 ^ 53)"
proof -
  have "\<bar>x\<bar> - \<bar>y - x\<bar> \<le> \<bar>y\<bar>" by linarith
  then show "\<bar>x\<bar> * (1 - 1 / 2 ^ 53) \<le> \<bar>y\<bar>" using assms by (simp add: algebra_simps)
  have "\<bar>y\<bar> \<le> \<bar>x\<bar> + \<bar>y - x\<bar>" by linarith
  then show "\<bar>y\<bar> \<le> \<bar>x\<bar> * (1 + 1 / 2 ^ 53)" using assms by (simp add: algebra_simps)
qed

text \<open>The quotient of the summary, when the two sizes differ, is well inside the range.\<close>

lemma quotient_range:
  assumes "0 < originalSize" and "originalSize < 2 ^ 53" and "newSize < 2 ^ 53"
    and "newSize \<noteq> originalSize"
  shows "1 / 2 ^ 53 \<le> \<bar>(real originalSize - real newSize) / real originalSize\<bar>"
    and "\<bar>(real originalSize - real newSize) / real originalSize\<bar> \<le> 2 ^ 53"
proof -
  let ?d = "\<bar>real originalSize - real newSize\<bar>"
  have o1: "1 \<le> real originalSize" using assms(1) by simp
  have "real originalSize < real (2 ^ 53)" using assms(2) by (simp only: of_nat_less_iff)
  then have o2: "real originalSize \<le> 2 ^ 53" by simp
  note o = o1 o2
  have "real newSize < real (2 ^ 53)" using assms(3) by (simp only: of_nat_less_iff)
  then have n: "real newSize \<le> 2 ^ 53" by simp
  have "1 \<le> \<bar>int originalSize - int newSize\<bar>" using assms(4) by linarith
  then have "real_of_int 1 \<le> real_of_int \<bar>int originalSize - int newSize\<bar>"
    by (simp only: of_int_le_iff)
  then have d1: "1 \<le> ?d" by simp
  have d2: "?d \<le> 2 ^ 53" using o n by (simp add: abs_if)
  have q: "\<bar>(real originalSize - real newSize) / real originalSize\<bar> = ?d / real originalSize"
    using o by simp
  have "1 / 2 ^ 53 \<le> 1 / real originalSize"
    using o by (intro divide_left_mono) simp_all
  also have "\<dots> \<le> ?d / real originalSize"
    using d1 o by (intro divide_right_mono) simp_all
  finally show "1 / 2 ^ 53 \<le> \<bar>(real originalSize - real newSize) / real originalSize\<bar>"
    unfolding q .
  have "?d / real originalSize \<le> ?d / 1"
    using o by (intro divide_left_mono) simp_all
  then show "\<bar>(real originalSize - real newSize) / real originalSize\<bar> \<le> 2 ^ 53"
    unfolding q using d2 by simp
qed

text \<open>The two roundings of the percentage together.\<close>

lemma rounded_twice:
  assumes "double_rounding fl" and "1 / 2 ^ 53 \<le> \<bar>q\<bar>" and "\<bar>q\<bar> \<le> 2 ^ 53"
  shows "\<bar>fl (fl q * 100) - q * 100\<bar> \<le> \<bar>q * 100\<bar> * (2 / 2 ^ 53 + 1 / 2 ^ 106)"
    and "(fl (fl q * 100) < 0) = (q < 0)" and "fl (fl q * 100) \<noteq> 0"
proof -
  define u :: real where "u = 1 / 2 ^ 53"
  have u: "0 < u" "u < 1 / 100" "u * u = 1 / 2 ^ 106" by (simp_all add: u_def)
  define a where "a = fl q"
  define b where "b = fl (a * 100)"
  have "\<bar>q\<bar> \<le> 2 ^ 61" using assms(3) by simp
  then have "\<bar>a - q\<bar> \<le> \<bar>q\<bar> / 2 ^ 53"
    unfolding a_def using assms(1,2) by (intro rounding_error)
  then have ea: "\<bar>a - q\<bar> \<le> \<bar>q\<bar> * u"
    and sa: "(q < 0 \<longrightarrow> a < 0) \<and> (0 < q \<longrightarrow> 0 < a)"
    and lo_a: "\<bar>q\<bar> * (1 - u) \<le> \<bar>a\<bar>" and hi_a: "\<bar>a\<bar> \<le> \<bar>q\<bar> * (1 + u)"
    using rounding_sign[of a q] rounding_size[of a q] by (simp_all add: u_def)
  have qpos: "0 < \<bar>q\<bar>" using assms(2) by (smt (verit) divide_pos_pos zero_less_power)
  have "\<bar>q\<bar> * 1 \<le> \<bar>q\<bar> * (100 * (1 - u))"
    using u qpos by (intro mult_left_mono) simp_all
  moreover have "(\<bar>q\<bar> * (1 - u)) * 100 \<le> \<bar>a\<bar> * 100"
    using lo_a by (intro mult_right_mono) simp_all
  ultimately have "\<bar>q\<bar> \<le> \<bar>a\<bar> * 100" by (simp add: algebra_simps)
  then have lo_b: "1 / 2 ^ 53 \<le> \<bar>a * 100\<bar>" using assms(2) by (simp add: abs_mult)
  have "\<bar>q\<bar> * (1 + u) \<le> \<bar>q\<bar> * 2"
    using u qpos by (intro mult_left_mono) simp_all
  then have "\<bar>a\<bar> \<le> 2 ^ 53 * 2" using hi_a assms(3) by linarith
  then have "\<bar>a\<bar> * 100 \<le> 2 ^ 53 * 200" by simp
  then have hi_b: "\<bar>a * 100\<bar> \<le> 2 ^ 61" by (simp add: abs_mult)
  have "\<bar>b - a * 100\<bar> \<le> \<bar>a * 100\<bar> / 2 ^ 53"
    unfolding b_def using assms(1) lo_b hi_b by (intro rounding_error)
  then have eb: "\<bar>b - a * 100\<bar> \<le> \<bar>a\<bar> * 100 * u"
    and sb: "(a * 100 < 0 \<longrightarrow> b < 0) \<and> (0 < a * 100 \<longrightarrow> 0 < b)"
    using rounding_sign[of b "a * 100"] by (simp_all add: u_def abs_mult)
  have "\<bar>a\<bar> * 100 * u \<le> (\<bar>q\<bar> * (1 + u)) * 100 * u"
    using hi_a u by (intro mult_right_mono) simp_all
  then have "\<bar>b - a * 100\<bar> \<le> \<bar>q\<bar> * (1 + u) * 100 * u" using eb by linarith
  moreover have "\<bar>a * 100 - q * 100\<bar> \<le> \<bar>q\<bar> * u * 100"
  proof -
    have "a * 100 - q * 100 = (a - q) * 100" by (simp add: algebra_simps)
    then have "\<bar>a * 100 - q * 100\<bar> = \<bar>a - q\<bar> * \<bar>100\<bar>" by (simp only: abs_mult)
    then have "\<bar>a * 100 - q * 100\<bar> = \<bar>a - q\<bar> * 100" by simp
    moreover have "\<bar>a - q\<bar> * 100 \<le> (\<bar>q\<bar> * u) * 100"
      using ea by (intro mult_right_mono) simp_all
    ultimately show ?thesis by simp
  qed
  moreover have "\<bar>b - q * 100\<bar> \<le> \<bar>b - a * 100\<bar> + \<bar>a * 100 - q * 100\<bar>" by linarith
  ultimately have "\<bar>b - q * 100\<bar> \<le> \<bar>q\<bar> * (1 + u) * 100 * u + \<bar>q\<bar> * u * 100" by linarith
  also have "\<dots> = \<bar>q * 100\<bar> * (2 * u + u * u)" by (simp add: abs_mult algebra_simps)
  also have "\<dots> = \<bar>q * 100\<bar> * (2 / 2 ^ 53 + 1 / 2 ^ 106)" unfolding u(3) by (simp add: u_def)
  finally show "\<bar>fl (fl q * 100) - q * 100\<bar> \<le> \<bar>q * 100\<bar> * (2 / 2 ^ 53 + 1 / 2 ^ 106)"
    unfolding b_def a_def .
  have qne: "q \<noteq> 0" using qpos by simp
  have "(b < 0) = (q < 0)" using sa sb qne by (cases "q < 0") auto
  then show "(fl (fl q * 100) < 0) = (q < 0)" unfolding b_def a_def .
  have "b \<noteq> 0" using sa sb qne by (cases "q < 0") auto
  then show "fl (fl q * 100) \<noteq> 0" unfolding b_def a_def .
qed

text \<open>
  Claim C4. For two sizes, the percentage is 0 when the original size is 0. Otherwise it is
  \<open>(originalSize - newSize) / originalSize * 100\<close> as the engine computes it, the quotient and
  the product each rounded to a double, which is the exact value within a relative error of
  \<open>2 / 2 ^ 53 + 1 / 2 ^ 106\<close>; and it is negative when the new size exceeds the original one.
  Beyond the claim: it is negative only then, and it is 0 only for an original size of 0 or
  two equal sizes. Sizes are below \<open>2 ^ 53\<close>, as the lengths of buffers are.
\<close>

theorem percent_reduction_cases:
  assumes "double_rounding fl" and "originalSize < 2 ^ 53" and "newSize < 2 ^ 53"
  shows "(originalSize = 0 \<longrightarrow> percentReduction fl originalSize newSize = 0)
   \<and> (originalSize \<noteq> 0 \<longrightarrow>
        percentReduction fl originalSize newSize
          = fl (fl ((real originalSize - real newSize) / real originalSize) * 100)
      \<and> \<bar>percentReduction fl originalSize newSize
           - (real originalSize - real newSize) / real originalSize * 100\<bar>
          \<le> \<bar>(real originalSize - real newSize) / real originalSize * 100\<bar>
              * (2 / 2 ^ 53 + 1 / 2 ^ 106)
      \<and> (originalSize < newSize \<longrightarrow> percentReduction fl originalSize newSize < 0))
   \<and> (percentReduction fl originalSize newSize < 0) = (0 < originalSize \<and> originalSize < newSize)
   \<and> (percentReduction fl originalSize newSize = 0) = (originalSize = 0 \<or> newSize = originalSize)"
proof (cases "originalSize = 0")
  case True
  then show ?thesis by (simp add: percentReduction_def)
next
  case False
  let ?q = "(real originalSize - real newSize) / real originalSize"
  have pr: "percentReduction fl originalSize newSize = fl (fl ?q * 100)"
    using False by (simp add: percentReduction_def)
  have fl0: "fl 0 = 0" using assms(1) by (simp add: double_rounding_def)
  show ?thesis
  proof (cases "newSize = originalSize")
    case True
    then have "?q = 0" by simp
    then have "fl (fl ?q * 100) = 0" using fl0 by (simp only: mult_zero_left)
    then show ?thesis unfolding pr using False True \<open>?q = 0\<close> by simp
  next
    case ne: False
    have pos: "0 < originalSize" using False by simp
    note range = quotient_range[OF pos assms(2,3) ne]
    note twice = rounded_twice[OF assms(1) range]
    have sign: "(?q < 0) = (originalSize < newSize)"
      using pos by (simp add: divide_less_0_iff)
    show ?thesis
      unfolding pr using False ne twice sign by simp
  qed
qed

theorem percent_reduction_cases_witness:
  "double_rounding (\<lambda>x. x) \<and> (4::nat) < 2 ^ 53 \<and> (6::nat) < 2 ^ 53
   \<and> percentReduction (\<lambda>x. x) 4 6 = - 50 \<and> percentReduction (\<lambda>x. x) 4 6 < 0
   \<and> percentReduction (\<lambda>x. x) 0 6 = 0
   \<and> double_rounding (\<lambda>x. x * (1 + 1 / 2 ^ 53))
   \<and> percentReduction (\<lambda>x. x * (1 + 1 / 2 ^ 53)) 4 6 < 0"
proof -
  have 1: "double_rounding (\<lambda>x. x)" by (simp add: double_rounding_def)
  have "\<bar>x * (1 + 1 / 2 ^ 53) - x\<bar> = \<bar>x\<bar> / 2 ^ 53" for x :: real
  proof -
    have "x * (1 + 1 / 2 ^ 53) - x = x / 2 ^ 53" by (simp add: algebra_simps)
    then show ?thesis by (simp only: abs_divide) simp
  qed
  then have 5: "double_rounding (\<lambda>x. x * (1 + 1 / 2 ^ 53))"
    unfolding double_rounding_def by simp
  have 2: "(4::nat) < 2 ^ 53" and 3: "(6::nat) < 2 ^ 53" and 4: "(0::nat) < 2 ^ 53" by simp_all
  have a: "percentReduction (\<lambda>x. x) 4 6 = - 50 \<and> percentReduction (\<lambda>x. x) 4 6 < 0
           \<and> percentReduction (\<lambda>x. x) 0 6 = 0"
    using percent_reduction_cases[OF 1 2 3] percent_reduction_cases[OF 1 4 3] by simp
  have b: "percentReduction (\<lambda>x. x * (1 + 1 / 2 ^ 53)) 4 6 < 0"
    using percent_reduction_cases[OF 5 2 3] by simp
  from 1 2 3 5 a b show ?thesis by blast
qed

subsection \<open>Resizing\<close>

lemma truthy_resizeDimension: "truthy (resizeDimension d) = at_least_one d"
proof (cases d)
  case None
  then show ?thesis by (simp add: truthy_def resizeDimension_def at_least_one_def)
next
  case (Some v)
  have "(0 < v \<and> \<lfloor>v\<rfloor> \<noteq> 0) = (1 \<le> v)"
  proof
    assume a: "0 < v \<and> \<lfloor>v\<rfloor> \<noteq> 0"
    then have "0 \<le> \<lfloor>v\<rfloor>" by simp
    with a have "1 \<le> \<lfloor>v\<rfloor>" by linarith
    then show "1 \<le> v" by linarith
  next
    assume "1 \<le> v"
    then have "1 \<le> \<lfloor>v\<rfloor>" by linarith
    with \<open>1 \<le> v\<close> show "0 < v \<and> \<lfloor>v\<rfloor> \<noteq> 0" by linarith
  qed
  with Some show ?thesis
    by (auto simp: truthy_def resizeDimension_def at_least_one_def)
qed

lemma not_positive_not_at_least_one: "\<not> positive d \<Longrightarrow> \<not> at_least_one d"
  by (cases d) (auto simp: positive_def at_least_one_def)

text \<open>
  Claim C6 says that \<open>resize\<close> is called as soon as the width or the height is a positive
  number. The dimensions are floored before they are tested, so a width of one half, with no
  height, is a positive number and yet no \<open>resize\<close> is called.
\<close>

theorem resize_skipped_below_one:
  "positive (width (resize ((demo_parameters ''binary'' ''jpg'')
       \<lparr>resize := \<lparr>width = Some (1 / 2), height = None, maintainAspectRatio = None\<rparr>\<rparr>)))
   \<and> filter is_resize (calls (buildImage ((demo_parameters ''binary'' ''jpg'')
       \<lparr>resize := \<lparr>width = Some (1 / 2), height = None, maintainAspectRatio = None\<rparr>\<rparr>) [1, 2, 3])) = []"
  by (simp add: positive_def demo_parameters_def buildImage_def chain_def resizeDimension_def
      truthy_def)

text \<open>
  Claim C6, amended. If neither the width nor the height is a number of at least 1, no
  \<open>resize\<close> is called; this is so in particular when neither is a positive number. Otherwise
  \<open>resize\<close> is called once, with the floored dimensions, with the fit \<open>inside\<close> unless
  \<open>maintainAspectRatio\<close> is \<open>false\<close>, where the fit is \<open>fill\<close>, and in both modes with
  \<open>withoutEnlargement\<close> set.
\<close>

theorem resize_invocation:
  "filter is_resize (calls (buildImage p buf)) =
     (if at_least_one (width (resize p)) \<or> at_least_one (height (resize p))
      then [Resize (resizeDimension (width (resize p))) (resizeDimension (height (resize p)))
              (if maintainAspectRatio (resize p) = Some False then Fill else Inside) True]
      else [])
   \<and> (\<not> positive (width (resize p)) \<and> \<not> positive (height (resize p)) \<longrightarrow>
        filter is_resize (calls (buildImage p buf)) = [])"
proof -
  have 1: "filter is_resize (calls (buildImage p buf)) =
     (if at_least_one (width (resize p)) \<or> at_least_one (height (resize p))
      then [Resize (resizeDimension (width (resize p))) (resizeDimension (height (resize p)))
              (if maintainAspectRatio (resize p) = Some False then Fill else Inside) True]
      else [])"
    by (simp add: buildImage_def chain_def Let_def truthy_resizeDimension)
  then show ?thesis using not_positive_not_at_least_one by auto
qed

theorem resize_invocation_witness:
  "filter is_resize (calls (buildImage ((demo_parameters ''binary'' ''jpg'')
       \<lparr>resize := \<lparr>width = Some 800.5, height = None, maintainAspectRatio = Some False\<rparr>\<rparr>) [1, 2, 3]))
     = [Resize (Some 800) None Fill True]
   \<and> filter is_resize (calls (buildImage (demo_parameters ''binary'' ''jpg'') [1, 2, 3])) = []"
  using resize_invocation[of "(demo_parameters ''binary'' ''jpg'')
       \<lparr>resize := \<lparr>width = Some 800.5, height = None, maintainAspectRatio = Some False\<rparr>\<rparr>" "[1, 2, 3]"]
    resize_invocation[of "demo_parameters ''binary'' ''jpg''" "[1, 2, 3]"]
  by (simp add: demo_parameters_def at_least_one_def resizeDimension_def)

subsection \<open>Output file name\<close>

lemma ext_is_format:
  "fmt \<in> {''jpg'', ''png'', ''webp'', ''avif''} \<Longrightarrow> snd (getMimeAndExt fmt) = fmt"
  by (auto simp: getMimeAndExt_def)

text \<open>
  The scan, piece by piece: the slashes that end the path are skipped, a run of other
  characters is one \<open>scan_run\<close>, and the loop ends at the slash before the last component or at
  the start of the path.
\<close>

lemma loop_skip_slashes:
  assumes "matchedSlash st" and "start \<le> lo"
    and "\<forall>j. lo \<le> j \<and> j < lo + k \<longrightarrow> path ! j = CHR ''/''"
  shows "parse_loop path start (lo + k) st = parse_loop path start lo st"
  using assms
proof (induction k)
  case 0
  then show ?case by simp
next
  case (Suc k)
  have "path ! (lo + k) = CHR ''/''" using Suc.prems(3) by simp
  moreover have "\<not> lo + k < start" using Suc.prems(2) by simp
  ultimately have "parse_loop path start (lo + Suc k) st = parse_loop path start (lo + k) st"
    using Suc.prems(1) by simp
  then show ?case using Suc by simp
qed

lemma loop_run:
  assumes "start \<le> lo" and "\<forall>j. lo \<le> j \<and> j < lo + k \<longrightarrow> path ! j \<noteq> CHR ''/''"
  shows "parse_loop path start (lo + k) st = parse_loop path start lo (scan_run path lo k st)"
  using assms
proof (induction k arbitrary: st)
  case 0
  then show ?case by simp
next
  case (Suc k)
  have "path ! (lo + k) \<noteq> CHR ''/''" using Suc.prems(2) by simp
  moreover have "\<not> lo + k < start" using Suc.prems(1) by simp
  ultimately have "parse_loop path start (lo + Suc k) st
      = parse_loop path start (lo + k) (scan_char (lo + k) (path ! (lo + k)) st)"
    by simp
  then show ?case using Suc by simp
qed

lemma run_no_dot_ended:
  assumes "startDot st = -1" and "endPos st \<noteq> -1"
    and "\<forall>j. lo \<le> j \<and> j < lo + k \<longrightarrow> path ! j \<noteq> CHR ''.''"
  shows "scan_run path lo k st = st"
  using assms
proof (induction k arbitrary: st)
  case 0
  then show ?case by simp
next
  case (Suc k)
  have "path ! (lo + k) \<noteq> CHR ''.''" using Suc.prems(3) by simp
  then have "scan_char (lo + k) (path ! (lo + k)) st = st"
    using Suc.prems(1,2) by (simp add: scan_char_def)
  then show ?case using Suc by simp
qed

lemma run_no_dot_first:
  assumes "startDot st = -1" and "endPos st = -1" and "0 < k"
    and "\<forall>j. lo \<le> j \<and> j < lo + k \<longrightarrow> path ! j \<noteq> CHR ''.''"
  shows "scan_run path lo k st = st\<lparr>endPos := int (lo + k), matchedSlash := False\<rparr>"
proof -
  obtain k' where k: "k = Suc k'" using assms(3) by (cases k) auto
  have nd: "path ! (lo + k') \<noteq> CHR ''.''" using assms(4) k by simp
  let ?st1 = "st\<lparr>endPos := int (lo + k), matchedSlash := False\<rparr>"
  have step: "scan_char (lo + k') (path ! (lo + k')) st = ?st1"
    using assms(1,2) nd k by (simp add: scan_char_def)
  have "scan_run path lo k' ?st1 = ?st1"
    using assms(1,4) k by (intro run_no_dot_ended) auto
  then show ?thesis using step k by simp
qed

lemma run_after_dot:
  assumes "startDot st \<noteq> -1" and "endPos st \<noteq> -1"
  shows "scan_run path lo k st =
           (if k = 0 then st
            else st\<lparr>preDotState := (if path ! lo = CHR ''.'' then 1 else -1)\<rparr>)"
  using assms
proof (induction k arbitrary: st)
  case 0
  then show ?case by simp
next
  case (Suc k)
  let ?c = "path ! (lo + k)"
  let ?st1 = "st\<lparr>preDotState := (if ?c = CHR ''.'' then 1 else -1)\<rparr>"
  have step: "scan_char (lo + k) ?c st = ?st1"
    using Suc.prems by (auto simp: scan_char_def)
  have "scan_run path lo k ?st1 =
           (if k = 0 then ?st1
            else ?st1\<lparr>preDotState := (if path ! lo = CHR ''.'' then 1 else -1)\<rparr>)"
    using Suc.prems by (intro Suc.IH) auto
  then show ?case using step by (cases k) auto
qed


lemma nth_middle:
  assumes "length xs \<le> j" and "j < length xs + length ys"
  shows "(xs @ ys @ zs) ! j = ys ! (j - length xs)"
proof -
  have "j - length xs < length ys" using assms by arith
  then show ?thesis using assms(1) by (simp add: nth_append)
qed

lemma nth_behind:
  assumes "length xs + length ys \<le> j"
  shows "(xs @ ys @ zs) ! j = zs ! (j - (length xs + length ys))"
  using assms by (auto simp: nth_append)

lemma loop_finish:
  assumes "pre = [] \<or> last pre = CHR ''/''" and "\<not> matchedSlash st" and "startPart st = 0"
    and "start = (if pre \<noteq> [] \<and> hd pre = CHR ''/'' then 1 else 0)"
  shows "parse_loop (pre @ rest) start (length pre) st
           = st\<lparr>startPart := (if 2 \<le> length pre then int (length pre) else 0)\<rparr>"
proof (cases pre rule: rev_cases)
  case Nil
  then show ?thesis using assms(3) by simp
next
  case (snoc front c)
  then have c: "c = CHR ''/''" using assms(1) by simp
  have len: "length pre = Suc (length front)" using snoc by simp
  have at: "(pre @ rest) ! length front = CHR ''/''" using snoc c by (simp add: nth_append)
  show ?thesis
  proof (cases front)
    case Nil
    then have "start = 1" using assms(4) snoc c by simp
    then show ?thesis using len Nil assms(3) by simp
  next
    case (Cons d front')
    then have "start \<le> 1" using assms(4) by simp
    then have "\<not> length front < start" using Cons by simp
    then show ?thesis using len at assms(2) Cons by simp
  qed
qed

lemma final_state_no_dot:
  assumes "pre = [] \<or> last pre = CHR ''/''" and "part \<noteq> []"
    and "CHR ''/'' \<notin> set part" and "CHR ''.'' \<notin> set part" and "set slashes \<subseteq> {CHR ''/''}"
    and "start = (if pre \<noteq> [] \<and> hd pre = CHR ''/'' then 1 else 0)"
  shows "parse_loop (pre @ part @ slashes) start (length (pre @ part @ slashes))
           \<lparr>startDot = -1, startPart = 0, endPos = -1, matchedSlash = True, preDotState = 0\<rparr>
         = \<lparr>startDot = -1, startPart = (if 2 \<le> length pre then int (length pre) else 0),
            endPos = int (length pre + length part), matchedSlash = False, preDotState = 0\<rparr>"
proof -
  let ?p = "pre @ part @ slashes"
  let ?I = "\<lparr>startDot = -1, startPart = 0, endPos = -1, matchedSlash = True, preDotState = 0\<rparr>"
  let ?a = "length pre"
  have start_le: "start \<le> ?a" using assms(6) by (cases pre) auto
  have slashes: "\<forall>j. ?a + length part \<le> j \<and> j < (?a + length part) + length slashes \<longrightarrow> ?p ! j = CHR ''/''"
  proof (intro allI impI)
    fix j assume j: "?a + length part \<le> j \<and> j < (?a + length part) + length slashes"
    then have "?p ! j = slashes ! (j - (?a + length part))"
      by (intro nth_behind) simp
    moreover have "j - (?a + length part) < length slashes" using j by arith
    then have "slashes ! (j - (?a + length part)) \<in> set slashes" by (rule nth_mem)
    ultimately show "?p ! j = CHR ''/''" using assms(5) by auto
  qed
  have part: "\<forall>j. ?a \<le> j \<and> j < ?a + length part \<longrightarrow> ?p ! j \<in> set part"
  proof (intro allI impI)
    fix j assume j: "?a \<le> j \<and> j < ?a + length part"
    then have "?p ! j = part ! (j - ?a)" by (intro nth_middle) simp_all
    moreover have "j - ?a < length part" using j by arith
    ultimately show "?p ! j \<in> set part" by simp
  qed
  have 1: "parse_loop ?p start (length ?p) ?I = parse_loop ?p start (?a + length part) ?I"
    using loop_skip_slashes[of ?I start "?a + length part" "length slashes" ?p] start_le slashes
    by (simp add: add.assoc)
  have 2: "parse_loop ?p start (?a + length part) ?I
             = parse_loop ?p start ?a (scan_run ?p ?a (length part) ?I)"
    using start_le part assms(3) by (intro loop_run) auto
  have 3: "scan_run ?p ?a (length part) ?I = ?I\<lparr>endPos := int (?a + length part), matchedSlash := False\<rparr>"
    using part assms(2,4) by (intro run_no_dot_first) auto
  have 4: "parse_loop ?p start ?a (?I\<lparr>endPos := int (?a + length part), matchedSlash := False\<rparr>)
            = ?I\<lparr>endPos := int (?a + length part), matchedSlash := False,
                 startPart := (if 2 \<le> ?a then int ?a else 0)\<rparr>"
    using loop_finish[OF assms(1) _ _ assms(6), of "?I\<lparr>endPos := int (?a + length part), matchedSlash := False\<rparr>" "part @ slashes"]
    by simp
  show ?thesis unfolding 1 2 3 4 by simp
qed

lemma final_state_dot:
  assumes "pre = [] \<or> last pre = CHR ''/''"
    and "CHR ''/'' \<notin> set stem" and "CHR ''/'' \<notin> set e" and "CHR ''.'' \<notin> set e"
    and "set slashes \<subseteq> {CHR ''/''}"
    and "start = (if pre \<noteq> [] \<and> hd pre = CHR ''/'' then 1 else 0)"
  shows "parse_loop (pre @ stem @ ''.'' @ e @ slashes) start (length (pre @ stem @ ''.'' @ e @ slashes))
           \<lparr>startDot = -1, startPart = 0, endPos = -1, matchedSlash = True, preDotState = 0\<rparr>
         = \<lparr>startDot = int (length pre + length stem),
            startPart = (if 2 \<le> length pre then int (length pre) else 0),
            endPos = int (length pre + length stem + 1 + length e), matchedSlash = False,
            preDotState = (if stem = [] then 0 else if hd stem = CHR ''.'' then 1 else -1)\<rparr>"
proof -
  let ?p = "pre @ stem @ ''.'' @ e @ slashes"
  let ?I = "\<lparr>startDot = -1, startPart = 0, endPos = -1, matchedSlash = True, preDotState = 0\<rparr>"
  let ?a = "length pre"
  let ?s = "length stem"
  let ?m = "length e"
  let ?D = "\<lparr>startDot = int (?a + ?s), startPart = 0, endPos = int (?a + ?s + 1 + ?m),
             matchedSlash = False, preDotState = 0\<rparr>"
  have start_le: "start \<le> ?a" using assms(6) by (cases pre) auto
  have slashes: "\<forall>j. (?a + ?s + 1 + ?m) \<le> j \<and> j < (?a + ?s + 1 + ?m) + length slashes \<longrightarrow> ?p ! j = CHR ''/''"
  proof (intro allI impI)
    fix j assume j: "(?a + ?s + 1 + ?m) \<le> j \<and> j < (?a + ?s + 1 + ?m) + length slashes"
    then have "((pre @ stem @ ''.'') @ e @ slashes) ! j
                 = slashes ! (j - (length (pre @ stem @ ''.'') + ?m))"
      by (intro nth_behind) simp
    then have "?p ! j = slashes ! (j - (?a + ?s + 1 + ?m))"
      by simp
    moreover have "j - (?a + ?s + 1 + ?m) < length slashes" using j by arith
    then have "slashes ! (j - (?a + ?s + 1 + ?m)) \<in> set slashes" by (rule nth_mem)
    ultimately show "?p ! j = CHR ''/''" using assms(5) by auto
  qed
  have extn: "\<forall>j. (?a + ?s + 1) \<le> j \<and> j < (?a + ?s + 1) + ?m \<longrightarrow> ?p ! j \<in> set e"
  proof (intro allI impI)
    fix j assume j: "(?a + ?s + 1) \<le> j \<and> j < (?a + ?s + 1) + ?m"
    then have "((pre @ stem @ ''.'') @ e @ slashes) ! j = e ! (j - length (pre @ stem @ ''.''))"
      by (intro nth_middle) simp_all
    then have "?p ! j = e ! (j - (?a + ?s + 1))" by simp
    moreover have "j - (?a + ?s + 1) < length e" using j by arith
    ultimately show "?p ! j \<in> set e" by simp
  qed
  have dot: "?p ! (?a + ?s) = CHR ''.''" by (simp add: nth_append)
  have stem: "\<forall>j. ?a \<le> j \<and> j < ?a + ?s \<longrightarrow> ?p ! j \<in> set stem"
  proof (intro allI impI)
    fix j assume j: "?a \<le> j \<and> j < ?a + ?s"
    then have "?p ! j = stem ! (j - ?a)" by (intro nth_middle) simp_all
    moreover have "j - ?a < length stem" using j by arith
    ultimately show "?p ! j \<in> set stem" by simp
  qed
  have 1: "parse_loop ?p start (length ?p) ?I = parse_loop ?p start (?a + ?s + 1 + ?m) ?I"
    using loop_skip_slashes[of ?I start "?a + ?s + 1 + ?m" "length slashes" ?p] start_le slashes
    by (simp add: add.assoc)
  have 2: "parse_loop ?p start ((?a + ?s + 1) + ?m) ?I
             = parse_loop ?p start (?a + ?s + 1) (scan_run ?p (?a + ?s + 1) ?m ?I)"
    using start_le extn assms(3) by (intro loop_run) auto
  have 3: "scan_run ?p (?a + ?s + 1) ?m ?I
             = (if ?m = 0 then ?I else ?I\<lparr>endPos := int (?a + ?s + 1 + ?m), matchedSlash := False\<rparr>)"
  proof (cases "?m = 0")
    case True
    then show ?thesis by simp
  next
    case False
    then have "scan_run ?p (?a + ?s + 1) ?m ?I
                 = ?I\<lparr>endPos := int ((?a + ?s + 1) + ?m), matchedSlash := False\<rparr>"
      using extn assms(4) by (intro run_no_dot_first) auto
    with False show ?thesis by simp
  qed
  have 4: "parse_loop ?p start (?a + ?s + 1) (scan_run ?p (?a + ?s + 1) ?m ?I)
             = parse_loop ?p start (?a + ?s) ?D"
  proof -
    have "\<not> ?a + ?s < start" using start_le by simp
    then have "parse_loop ?p start (Suc (?a + ?s)) st
                 = parse_loop ?p start (?a + ?s) (scan_char (?a + ?s) CHR ''.'' st)" for st
      using dot by simp
    moreover have "scan_char (?a + ?s) CHR ''.'' (scan_run ?p (?a + ?s + 1) ?m ?I) = ?D"
      unfolding 3 by (simp add: scan_char_def)
    ultimately show ?thesis by simp
  qed
  have 5: "parse_loop ?p start (?a + ?s) ?D = parse_loop ?p start ?a (scan_run ?p ?a ?s ?D)"
    using start_le stem assms(2) by (intro loop_run) auto
  have hd_stem: "stem \<noteq> [] \<Longrightarrow> ?p ! ?a = hd stem"
    by (cases stem) (simp_all add: nth_append)
  have 6: "scan_run ?p ?a ?s ?D
             = ?D\<lparr>preDotState := (if stem = [] then 0 else if hd stem = CHR ''.'' then 1 else -1)\<rparr>"
    using run_after_dot[of ?D ?p ?a ?s] hd_stem by (cases "stem = []") simp_all
  let ?S = "?D\<lparr>preDotState := (if stem = [] then 0 else if hd stem = CHR ''.'' then 1 else -1)\<rparr>"
  have 7: "parse_loop ?p start ?a ?S
             = ?S\<lparr>startPart := (if 2 \<le> ?a then int ?a else 0)\<rparr>"
    using loop_finish[OF assms(1) _ _ assms(6), of ?S "stem @ ''.'' @ e @ slashes"] by simp
  have "parse_loop ?p start (length ?p) ?I = ?S\<lparr>startPart := (if 2 \<le> ?a then int ?a else 0)\<rparr>"
    using 1 2 4 5 6 7 by (simp add: add.assoc add.commute add.left_commute)
  then show ?thesis by simp
qed

text \<open>
  What \<open>path.parse\<close> returns for a path \<open>pre @ part @ slashes\<close>, where \<open>part\<close> is the last
  component, \<open>pre\<close> is the directory part with its slash, and only slashes follow. The base
  name is \<open>part\<close>. A component without a dot has no extension; otherwise the extension starts
  at the last dot, unless nothing precedes that dot or the component is \<open>..\<close> (which, right
  under the root, Node splits into the name \<open>.\<close> and the extension \<open>.\<close>).
\<close>

lemma slice_middle: "slice (xs @ ys @ zs) (int (length xs)) (int (length xs + length ys)) = ys"
  by (simp add: slice_def)

lemma second_start:
  assumes "pre = [] \<or> last pre = CHR ''/''"
  shows "(if (if 2 \<le> length pre then int (length pre) else 0) = 0
             \<and> (pre \<noteq> [] \<and> hd pre = CHR ''/'') then 1
          else (if 2 \<le> length pre then int (length pre) else 0)) = int (length pre)"
proof (cases pre)
  case Nil
  then show ?thesis by simp
next
  case (Cons c cs)
  show ?thesis
  proof (cases cs)
    case Nil
    with Cons assms show ?thesis by simp
  next
    case (Cons d ds)
    with \<open>pre = c # cs\<close> show ?thesis by simp
  qed
qed

lemma path_parse_no_dot:
  assumes "pre = [] \<or> last pre = CHR ''/''" and "part \<noteq> []"
    and "CHR ''/'' \<notin> set part" and "CHR ''.'' \<notin> set part" and "set slashes \<subseteq> {CHR ''/''}"
  shows "path_parse (pre @ part @ slashes) = \<lparr>path_base = part, path_ext = [], path_name = part\<rparr>"
proof -
  let ?p = "pre @ part @ slashes"
  have ne: "?p \<noteq> []" using assms(2) by simp
  have "hd part \<noteq> CHR ''/''" using assms(2,3) by (cases part) auto
  then have abs: "(hd ?p = CHR ''/'') = (pre \<noteq> [] \<and> hd pre = CHR ''/'')"
    using assms(2) by (cases pre) auto
  let ?start = "if pre \<noteq> [] \<and> hd pre = CHR ''/'' then 1 else 0 :: nat"
  note fs = final_state_no_dot[OF assms, of ?start, OF refl]
  show ?thesis
    unfolding path_parse_def Let_def abs fs scan.select_convs second_start[OF assms(1)]
    using ne slice_middle[of pre part slashes]
    by simp
qed

lemma path_parse_dot:
  assumes "pre = [] \<or> last pre = CHR ''/''"
    and "CHR ''/'' \<notin> set stem" and "CHR ''/'' \<notin> set e" and "CHR ''.'' \<notin> set e"
    and "set slashes \<subseteq> {CHR ''/''}"
  shows "path_parse (pre @ stem @ ''.'' @ e @ slashes) =
           (if stem = [] \<or> (stem = ''.'' \<and> e = [] \<and> pre \<noteq> ''/'')
            then \<lparr>path_base = stem @ ''.'' @ e, path_ext = [], path_name = stem @ ''.'' @ e\<rparr>
            else \<lparr>path_base = stem @ ''.'' @ e, path_ext = ''.'' @ e, path_name = stem\<rparr>)"
proof -
  let ?part = "stem @ ''.'' @ e"
  let ?p = "pre @ stem @ ''.'' @ e @ slashes"
  let ?a = "length pre"
  have ne: "?p \<noteq> []" by simp
  have "hd ?part \<noteq> CHR ''/''" using assms(2) by (cases stem) auto
  then have abs: "(hd ?p = CHR ''/'') = (pre \<noteq> [] \<and> hd pre = CHR ''/'')"
    by (cases pre) (auto simp: hd_append)
  let ?start = "if pre \<noteq> [] \<and> hd pre = CHR ''/'' then 1 else 0 :: nat"
  note fs = final_state_dot[OF assms, of ?start, OF refl]
  have b: "slice ?p (int ?a) (int (?a + length stem + 1 + length e)) = ?part"
    using slice_middle[of pre ?part slashes] by (simp add: add.assoc)
  have n: "slice ?p (int ?a) (int (?a + length stem)) = stem"
    using slice_middle[of pre stem "''.'' @ e @ slashes"] by simp
  have x: "slice ?p (int (?a + length stem)) (int (?a + length stem + 1 + length e)) = ''.'' @ e"
    using slice_middle[of "pre @ stem" "''.'' @ e" slashes] by (simp add: add.assoc)
  have one: "(?a = 1) = (pre = ''/'')"
  proof
    assume "?a = 1"
    then obtain c where "pre = [c]" by (cases pre) auto
    with assms(1) show "pre = ''/''" by simp
  next
    assume "pre = ''/''" then show "?a = 1" by simp
  qed
  have dotdot: "stem \<noteq> [] \<Longrightarrow> (hd stem = CHR ''.'' \<and> length stem = 1) = (stem = ''.'')"
    by (cases stem) auto
  show ?thesis
  proof (cases "stem = []")
    case True
    then show ?thesis
      unfolding path_parse_def Let_def abs fs scan.select_convs second_start[OF assms(1)]
      using ne b by simp
  next
    case False
    have cond: "((if stem = [] then 0 else if hd stem = CHR ''.'' then 1 else - 1 :: int) = 1
                  \<and> int (?a + length stem) = int (?a + length stem + 1 + length e) - 1
                  \<and> int (?a + length stem) = (if 2 \<le> ?a then int ?a else 0) + 1)
                = (stem = ''.'' \<and> e = [] \<and> pre \<noteq> ''/'')"
    proof -
      consider "?a = 0" | "?a = 1" | "2 \<le> ?a" by linarith
      then show ?thesis
      proof cases
        case 1
        then have "pre = []" by simp
        then show ?thesis using False dotdot[OF False] by auto
      next
        case 2
        then have "pre = ''/''" using one by simp
        moreover have "length stem \<noteq> 0" using False by simp
        ultimately show ?thesis using False by simp
      next
        case 3
        then have "pre \<noteq> ''/''" using one by auto
        then show ?thesis using 3 False dotdot[OF False] by auto
      qed
    qed
    have zero: "((if stem = [] then 0 else if hd stem = CHR ''.'' then 1 else - 1 :: int) = 0) = False"
      using False by simp
    have sd: "(int (?a + length stem) = - 1) = False" by simp
    show ?thesis
      unfolding path_parse_def Let_def abs fs scan.select_convs second_start[OF assms(1)]
        cond zero sd b n x
      using ne False by simp
  qed
qed

lemma path_parse_slashes:
  assumes "set p \<subseteq> {CHR ''/''}"
  shows "path_parse p = \<lparr>path_base = [], path_ext = [], path_name = []\<rparr>"
proof (cases p)
  case Nil
  then show ?thesis by (simp add: path_parse_def)
next
  case (Cons c cs)
  let ?I = "\<lparr>startDot = -1, startPart = 0, endPos = -1, matchedSlash = True, preDotState = 0\<rparr>"
  have c: "c = CHR ''/''" using assms Cons by simp
  have "\<forall>j. 1 \<le> j \<and> j < 1 + length cs \<longrightarrow> p ! j = CHR ''/''"
  proof (intro allI impI)
    fix j assume j: "1 \<le> j \<and> j < 1 + length cs"
    then have "j < length p" using Cons by simp
    then have "p ! j \<in> set p" by (rule nth_mem)
    then show "p ! j = CHR ''/''" using assms by auto
  qed
  then have "parse_loop p 1 (1 + length cs) ?I = parse_loop p 1 1 ?I"
    by (intro loop_skip_slashes) simp_all
  then have "parse_loop p 1 (length p) ?I = ?I" using Cons by simp
  then show ?thesis using Cons c by (simp add: path_parse_def)
qed

text \<open>Every path has this form or consists of slashes only.\<close>

lemma split_path:
  "set p \<subseteq> {CHR ''/''} \<or>
   (\<exists>pre part slashes. p = pre @ part @ slashes \<and> (pre = [] \<or> last pre = CHR ''/'')
      \<and> part \<noteq> [] \<and> CHR ''/'' \<notin> set part \<and> set slashes \<subseteq> {CHR ''/''})"
proof (cases "set p \<subseteq> {CHR ''/''}")
  case True
  then show ?thesis by simp
next
  case False
  define sl where "sl = rev (takeWhile (\<lambda>c. c = CHR ''/'') (rev p))"
  define body where "body = rev (dropWhile (\<lambda>c. c = CHR ''/'') (rev p))"
  define part where "part = rev (takeWhile (\<lambda>c. c \<noteq> CHR ''/'') (rev body))"
  define pre where "pre = rev (dropWhile (\<lambda>c. c \<noteq> CHR ''/'') (rev body))"
  have "rev (takeWhile (\<lambda>c. c = CHR ''/'') (rev p) @ dropWhile (\<lambda>c. c = CHR ''/'') (rev p)) = p"
    by simp
  then have p: "p = body @ sl"
    unfolding body_def sl_def by (simp only: rev_append)
  have "rev (takeWhile (\<lambda>c. c \<noteq> CHR ''/'') (rev body) @ dropWhile (\<lambda>c. c \<noteq> CHR ''/'') (rev body)) = body"
    by simp
  then have body: "body = pre @ part"
    unfolding pre_def part_def by (simp only: rev_append)
  have sl: "set sl \<subseteq> {CHR ''/''}"
    unfolding sl_def by (auto dest: set_takeWhileD)
  have body_ne: "rev body \<noteq> []"
    unfolding body_def using False by (auto simp: dropWhile_eq_Nil_conv)
  have "rev body = dropWhile (\<lambda>c. c = CHR ''/'') (rev p)"
    unfolding body_def by simp
  then have "hd (rev body) \<noteq> CHR ''/''"
    using body_ne hd_dropWhile[of "\<lambda>c. c = CHR ''/''" "rev p"] by simp
  then have part_ne: "part \<noteq> []"
    unfolding part_def using body_ne by (cases "rev body") auto
  have part: "CHR ''/'' \<notin> set part"
    unfolding part_def by (auto dest: set_takeWhileD)
  have pre: "pre = [] \<or> last pre = CHR ''/''"
  proof (cases "pre = []")
    case True
    then show ?thesis by simp
  next
    case False
    then have ne: "dropWhile (\<lambda>c. c \<noteq> CHR ''/'') (rev body) \<noteq> []"
      unfolding pre_def by simp
    have "hd (dropWhile (\<lambda>c. c \<noteq> CHR ''/'') (rev body)) = CHR ''/''"
      using hd_dropWhile[OF ne] by simp
    then show ?thesis unfolding pre_def using ne by (simp add: last_rev)
  qed
  have "p = pre @ part @ sl" using p body by simp
  then have "\<exists>pre part slashes. p = pre @ part @ slashes \<and> (pre = [] \<or> last pre = CHR ''/'')
      \<and> part \<noteq> [] \<and> CHR ''/'' \<notin> set part \<and> set slashes \<subseteq> {CHR ''/''}"
    using pre part_ne part sl by (intro exI[of _ pre] exI[of _ part] exI[of _ sl]) simp
  then show ?thesis by (rule disjI2)
qed

text \<open>The name is the base name without the extension, for every path.\<close>

lemma base_is_name_ext: "path_base (path_parse p) = path_name (path_parse p) @ path_ext (path_parse p)"
proof (cases "set p \<subseteq> {CHR ''/''}")
  case True
  then show ?thesis by (simp add: path_parse_slashes)
next
  case False
  with split_path[of p] obtain pre part slashes where
    d: "p = pre @ part @ slashes" "pre = [] \<or> last pre = CHR ''/''"
      "part \<noteq> []" "CHR ''/'' \<notin> set part" "set slashes \<subseteq> {CHR ''/''}"
    by blast
  show ?thesis
  proof (cases "CHR ''.'' \<in> set part")
    case False
    then show ?thesis unfolding d(1) using d(2-5) by (simp add: path_parse_no_dot)
  next
    case True
    from split_list_last[OF True] obtain stem e where
      part: "part = stem @ CHR ''.'' # e" and e: "CHR ''.'' \<notin> set e"
      by blast
    have sl: "CHR ''/'' \<notin> set stem" "CHR ''/'' \<notin> set e" using d(4) part by auto
    have p: "p = pre @ stem @ ''.'' @ e @ slashes" using d(1) part by simp
    show ?thesis
      unfolding p path_parse_dot[OF d(2) sl e d(5)]
      by (cases "stem = [] \<or> (stem = ''.'' \<and> e = [] \<and> pre \<noteq> ''/'')") simp_all
  qed
qed

lemma outFileName_Some:
  assumes "fmt \<in> {''jpg'', ''png'', ''webp'', ''avif''}" and "f \<noteq> []"
  shows "outFileName (Some f) fmt = path_name (path_parse f) @ ''.'' @ fmt"
  using assms(2) ext_is_format[OF assms(1)] by (simp add: outFileName_def baseName_def)

text \<open>
  Claim C7. For each of the four target formats the output file name is the base name of
  the source file name without its extension, then a dot and the extension of the format,
  which is the format's own name. The base name is the last component of the path, whatever
  directory precedes it: a source name \<open>stem.e\<close> gives \<open>stem\<close>, a source name without a dot is
  kept whole. Without a source file name the base name is \<open>image\<close>. The source name
  \<open>photo.tiff\<close> with the format \<open>png\<close> gives \<open>photo.png\<close>.
\<close>

theorem out_file_name:
  assumes "fmt \<in> {''jpg'', ''png'', ''webp'', ''avif''}"
  shows "outFileName None fmt = ''image.'' @ fmt
     \<and> outFileName (Some []) fmt = ''image.'' @ fmt
     \<and> (f \<noteq> [] \<longrightarrow> outFileName (Some f) fmt = path_name (path_parse f) @ ''.'' @ fmt)
     \<and> path_base (path_parse f) = path_name (path_parse f) @ path_ext (path_parse f)
     \<and> ((pre = [] \<or> last pre = CHR ''/'') \<and> set slashes \<subseteq> {CHR ''/''}
          \<and> CHR ''/'' \<notin> set stem \<and> CHR ''/'' \<notin> set e \<and> CHR ''.'' \<notin> set e \<and> stem \<noteq> [] \<longrightarrow>
           (e \<noteq> [] \<longrightarrow>
              path_parse (pre @ stem @ ''.'' @ e @ slashes)
                = \<lparr>path_base = stem @ ''.'' @ e, path_ext = ''.'' @ e, path_name = stem\<rparr>
            \<and> outFileName (Some (pre @ stem @ ''.'' @ e @ slashes)) fmt = stem @ ''.'' @ fmt)
         \<and> (CHR ''.'' \<notin> set stem \<longrightarrow>
              path_parse (pre @ stem @ slashes)
                = \<lparr>path_base = stem, path_ext = [], path_name = stem\<rparr>
            \<and> outFileName (Some (pre @ stem @ slashes)) fmt = stem @ ''.'' @ fmt))
     \<and> outFileName (Some ''photo.tiff'') ''png'' = ''photo.png''"
proof -
  have 1: "outFileName None fmt = ''image.'' @ fmt" "outFileName (Some []) fmt = ''image.'' @ fmt"
    using ext_is_format[OF assms] by (simp_all add: outFileName_def baseName_def)
  have 2: "f \<noteq> [] \<longrightarrow> outFileName (Some f) fmt = path_name (path_parse f) @ ''.'' @ fmt"
    using outFileName_Some[OF assms] by simp
  have 3: "path_base (path_parse f) = path_name (path_parse f) @ path_ext (path_parse f)"
    by (rule base_is_name_ext)
  have 4: "path_parse (pre @ stem @ ''.'' @ e @ slashes)
             = \<lparr>path_base = stem @ ''.'' @ e, path_ext = ''.'' @ e, path_name = stem\<rparr>
           \<and> outFileName (Some (pre @ stem @ ''.'' @ e @ slashes)) fmt = stem @ ''.'' @ fmt"
    if "pre = [] \<or> last pre = CHR ''/''" "set slashes \<subseteq> {CHR ''/''}" "CHR ''/'' \<notin> set stem"
      "CHR ''/'' \<notin> set e" "CHR ''.'' \<notin> set e" "stem \<noteq> []" "e \<noteq> []"
  proof -
    have "path_parse (pre @ stem @ ''.'' @ e @ slashes)
             = \<lparr>path_base = stem @ ''.'' @ e, path_ext = ''.'' @ e, path_name = stem\<rparr>"
      using path_parse_dot[OF that(1) that(3) that(4) that(5) that(2)] that(6,7) by simp
    then show ?thesis
      using outFileName_Some[OF assms, of "pre @ stem @ ''.'' @ e @ slashes"] by simp
  qed
  have 5: "path_parse (pre @ stem @ slashes)
             = \<lparr>path_base = stem, path_ext = [], path_name = stem\<rparr>
           \<and> outFileName (Some (pre @ stem @ slashes)) fmt = stem @ ''.'' @ fmt"
    if "pre = [] \<or> last pre = CHR ''/''" "set slashes \<subseteq> {CHR ''/''}" "CHR ''/'' \<notin> set stem"
      "stem \<noteq> []" "CHR ''.'' \<notin> set stem"
  proof -
    have "path_parse (pre @ stem @ slashes)
             = \<lparr>path_base = stem, path_ext = [], path_name = stem\<rparr>"
      by (rule path_parse_no_dot[OF that(1) that(4) that(3) that(5) that(2)])
    then show ?thesis
      using outFileName_Some[OF assms, of "pre @ stem @ slashes"] that(4) by simp
  qed
  have png: "''png'' \<in> {''jpg'', ''png'', ''webp'', ''avif''}" by simp
  have "path_parse ([] @ ''photo'' @ ''.'' @ ''tiff'' @ [])
          = \<lparr>path_base = ''photo'' @ ''.'' @ ''tiff'', path_ext = ''.'' @ ''tiff'',
             path_name = ''photo''\<rparr>"
    by (subst path_parse_dot) simp_all
  then have 6: "outFileName (Some ''photo.tiff'') ''png'' = ''photo.png''"
    using ext_is_format[OF png] by (simp add: outFileName_def baseName_def)
  from 1 2 3 4 5 6 show ?thesis by blast
qed

theorem out_file_name_witness:
  "''png'' \<in> {''jpg'', ''png'', ''webp'', ''avif''}
   \<and> outFileName (Some (''/tmp/'' @ ''photo'' @ ''.'' @ ''tiff'' @ [])) ''png'' = ''photo.png''
   \<and> outFileName (Some (''/tmp/'' @ ''photo'' @ [])) ''png'' = ''photo.png''
   \<and> outFileName None ''png'' = ''image.png''"
proof -
  have 1: "''png'' \<in> {''jpg'', ''png'', ''webp'', ''avif''}" by simp
  from out_file_name[OF 1, where f = "''photo.tiff''" and pre = "''/tmp/''" and slashes = "[]"
      and stem = "''photo''" and e = "''tiff''"] 1
  show ?thesis by simp
qed

text \<open>
  The components that are not file names: a name that starts with its only dot is kept
  whole, and so is \<open>..\<close>, except right under the root.
\<close>

lemma path_parse_specials:
  "path_name (path_parse ''.bashrc'') = ''.bashrc''"
  "path_name (path_parse ''..'') = ''..''"
  "path_name (path_parse ''dir/..'') = ''..''"
  "path_name (path_parse ''/..'') = ''.''"
proof -
  show "path_name (path_parse ''.bashrc'') = ''.bashrc''"
    using path_parse_dot[of "[]" "[]" "''bashrc''" "[]"] by simp
  show "path_name (path_parse ''..'') = ''..''"
    using path_parse_dot[of "[]" "''.''" "[]" "[]"] by simp
  show "path_name (path_parse ''dir/..'') = ''..''"
    using path_parse_dot[of "''dir/''" "''.''" "[]" "[]"] by simp
  show "path_name (path_parse ''/..'') = ''.''"
    using path_parse_dot[of "''/''" "''.''" "[]" "[]"] by simp
qed

subsection \<open>Base64 input\<close>

lemma data_uri_match_prefix:
  assumes "m \<noteq> []" "CHR '';'' \<notin> set m"
  shows "data_uri_match (''data:'' @ m @ '';base64,'' @ s) = Some s"
proof -
  have tw: "takeWhile (\<lambda>c. c \<noteq> CHR '';'') (m @ CHR '';'' # t) = m" for t
    using assms(2) by (subst takeWhile_append2) auto
  show ?thesis
    using assms(1) by (simp add: data_uri_match_def tw)
qed

lemma cleaned_prefix:
  assumes "m \<noteq> []" "CHR '';'' \<notin> set m"
  shows "cleaned (''data:'' @ m @ '';base64,'' @ s) = s"
  unfolding cleaned_def data_uri_match_prefix[OF assms] by simp

lemma cleaned_no_prefix: "data_uri_match s = None \<Longrightarrow> cleaned s = s"
  by (simp add: cleaned_def)

lemma resolveInput_base64:
  assumes "inputSource p \<noteq> ''binary''"
    and "map_of (json itm) (base64FieldName p) = Some (JString b64raw)"
  shows "resolveInput h p i itm =
           (if b64raw = [] then Inl (NotBase64String (base64FieldName p))
            else Inr (bufferFromBase64 h (cleaned b64raw), Some ''input''))"
  using assms by (simp add: resolveInput_def)

text \<open>
  Claim C8 is stated for every string \<open>s\<close>. For the empty string it fails: the field value
  \<open>data:image/png;base64,\<close> is not empty, so it passes the check of the field and resolves to
  the empty buffer, while the raw empty string is rejected by that check.
\<close>

theorem data_uri_empty_payload:
  "resolveInput (demo_host False (demo_parameters ''base64'' ''png'') []) (demo_parameters ''base64'' ''png'') 0
      \<lparr>json = [(''imageBase64'', JString (''data:'' @ ''image/png'' @ '';base64,'' @ ''''))], binary = None\<rparr>
     = Inr ([], Some ''input'')
   \<and> resolveInput (demo_host False (demo_parameters ''base64'' ''png'') []) (demo_parameters ''base64'' ''png'') 0
      \<lparr>json = [(''imageBase64'', JString '''')], binary = None\<rparr>
     = Inl (NotBase64String ''imageBase64'')"
  by (simp add: resolveInput_def demo_parameters_def demo_host_def cleaned_def data_uri_match_def
      node_base64_decode_def List.map_filter_def)

text \<open>
  It fails as well for a string that starts with a data-URI prefix of its own: the
  expression is applied once, so the inner prefix is removed from the raw string and stays in
  the prefixed one.
\<close>

lemma data_uri_nested_prefix:
  "resolveInput (demo_host False (demo_parameters ''base64'' ''png'') []) (demo_parameters ''base64'' ''png'') 0
      \<lparr>json = [(''imageBase64'', JString (''data:'' @ ''image/png'' @ '';base64,'' @ ''data:x;base64,AAAA''))], binary = None\<rparr>
     = Inr ([117, 171, 90, 197, 182, 172, 123, 174, 0, 0, 0], Some ''input'')
   \<and> resolveInput (demo_host False (demo_parameters ''base64'' ''png'') []) (demo_parameters ''base64'' ''png'') 0
      \<lparr>json = [(''imageBase64'', JString ''data:x;base64,AAAA'')], binary = None\<rparr>
     = Inr ([0, 0, 0], Some ''input'')"
  by (simp add: resolveInput_def demo_parameters_def demo_host_def cleaned_def data_uri_match_def
      node_base64_decode_def List.map_filter_def unbase64_def)

text \<open>
  Claim C8, amended. In Base64 mode, for every mime token \<open>m\<close> (not empty, without \<open>;\<close>) and
  every string \<open>s\<close> that is not empty and does not itself start with a data-URI prefix, the
  field value \<open>data:m;base64,s\<close> resolves to the same buffer as the raw string \<open>s\<close>: the decoding
  of \<open>s\<close>. In particular \<open>data:image/png;base64,AAAA\<close> resolves as \<open>AAAA\<close> does.
\<close>

theorem data_uri_prefix_stripped:
  assumes "m \<noteq> []" and "CHR '';'' \<notin> set m"
    and "s \<noteq> []" and "data_uri_match s = None"
    and "inputSource p \<noteq> ''binary''"
    and "map_of (json prefixed) (base64FieldName p) = Some (JString (''data:'' @ m @ '';base64,'' @ s))"
    and "map_of (json raw) (base64FieldName p) = Some (JString s)"
  shows "resolveInput h p i prefixed = resolveInput h p i raw
       \<and> resolveInput h p i raw = Inr (bufferFromBase64 h s, Some ''input'')"
proof -
  have a: "resolveInput h p i prefixed = Inr (bufferFromBase64 h s, Some ''input'')"
    using resolveInput_base64[OF assms(5) assms(6), of h i] cleaned_prefix[OF assms(1,2), of s]
    by simp
  have b: "resolveInput h p i raw = Inr (bufferFromBase64 h s, Some ''input'')"
    using resolveInput_base64[OF assms(5) assms(7), of h i] cleaned_no_prefix[OF assms(4)] assms(3)
    by simp
  from a b show ?thesis by simp
qed

theorem data_uri_prefix_stripped_witness:
  "resolveInput (demo_host False (demo_parameters ''base64'' ''png'') []) (demo_parameters ''base64'' ''png'') 0
      \<lparr>json = [(''imageBase64'', JString ''data:image/png;base64,AAAA'')], binary = None\<rparr>
   = resolveInput (demo_host False (demo_parameters ''base64'' ''png'') []) (demo_parameters ''base64'' ''png'') 0
      \<lparr>json = [(''imageBase64'', JString ''AAAA'')], binary = None\<rparr>
   \<and> resolveInput (demo_host False (demo_parameters ''base64'' ''png'') []) (demo_parameters ''base64'' ''png'') 0
      \<lparr>json = [(''imageBase64'', JString ''AAAA'')], binary = None\<rparr> = Inr ([0, 0, 0], Some ''input'')"
proof -
  let ?p = "demo_parameters ''base64'' ''png''"
  have 1: "''image/png'' \<noteq> []" and 2: "CHR '';'' \<notin> set ''image/png''" and 3: "''AAAA'' \<noteq> []"
    and 4: "data_uri_match ''AAAA'' = None" and 5: "inputSource ?p \<noteq> ''binary''"
    by (simp_all add: data_uri_match_def demo_parameters_def)
  have 6: "map_of (json \<lparr>json = [(''imageBase64'', JString ''data:image/png;base64,AAAA'')], binary = None\<rparr>) (base64FieldName ?p)
     = Some (JString (''data:'' @ ''image/png'' @ '';base64,'' @ ''AAAA''))"
    by (simp add: demo_parameters_def)
  have 7: "map_of (json \<lparr>json = [(''imageBase64'', JString ''AAAA'')], binary = None\<rparr>) (base64FieldName ?p)
     = Some (JString ''AAAA'')"
    by (simp add: demo_parameters_def)
  have dec: "bufferFromBase64 (demo_host False ?p []) ''AAAA'' = [0, 0, 0]"
    by (simp add: demo_host_def node_base64_decode_def unbase64_def List.map_filter_def)
  from data_uri_prefix_stripped[OF 1 2 3 4 5 6 7, of "demo_host False ?p []" 0] dec
  show ?thesis by simp
qed

subsection \<open>The batch\<close>

text \<open>The loop when failures are tolerated: every record contributes one output record.\<close>

lemma execute_loop_tolerant:
  assumes "continueOnFail h"
  shows "execute_loop h items i returnData =
     Inr (returnData @ map (\<lambda>j. case processItem h j (items ! j) of
                                    Inr newItem \<Rightarrow> newItem
                                  | Inl err \<Rightarrow> errorItem err (items ! j)) [i..<length items])"
  using assms
proof (induction h items i returnData rule: execute_loop.induct)
  case (1 h items i returnData)
  show ?case
  proof (cases "i < length items")
    case False
    then show ?thesis by (subst execute_loop.simps) simp
  next
    case True
    then have upt: "[i..<length items] = i # [i + 1..<length items]"
      by (simp add: upt_conv_Cons)
    show ?thesis
    proof (cases "processItem h i (items ! i)")
      case (Inl err)
      with True 1 show ?thesis
        by (subst execute_loop.simps) (simp add: upt)
    next
      case (Inr newItem)
      with True 1 show ?thesis
        by (subst execute_loop.simps) (simp add: upt)
    qed
  qed
qed

text \<open>
  The loop when they are not: it stops at the first record that fails, with the records
  before it in \<open>returnData\<close>.
\<close>

lemma execute_loop_abort:
  assumes "\<not> continueOnFail h" and "k < length items" and "i \<le> k"
    and "\<forall>j. i \<le> j \<and> j < k \<longrightarrow> processItem h j (items ! j) = Inr (outs ! j)"
    and "processItem h k (items ! k) = Inl e"
  shows "execute_loop h items i returnData = Inl (e, returnData @ map (\<lambda>j. outs ! j) [i..<k])"
  using assms
proof (induction "k - i" arbitrary: i returnData)
  case 0
  then have "i = k" by simp
  with 0 show ?case by (subst execute_loop.simps) simp
next
  case (Suc d)
  then have lt: "i < k" by simp
  then have upt: "[i..<k] = i # [i + 1..<k]" by (simp add: upt_conv_Cons)
  have here: "processItem h i (items ! i) = Inr (outs ! i)"
    using Suc.prems(4) lt by simp
  have "execute_loop h items (i + 1) (returnData @ [outs ! i])
          = Inl (e, (returnData @ [outs ! i]) @ map (\<lambda>j. outs ! j) [i + 1..<k])"
    using Suc.hyps(2) lt Suc.prems by (intro Suc.hyps(1)) auto
  then show ?case
    using lt Suc.prems(2) here by (subst execute_loop.simps) (simp add: upt)
qed

text \<open>A record that is processed without error, step by step.\<close>

lemma processItem_success:
  assumes "processItem h i itm = Inr newItem"
  shows "\<exists>inputBuffer originalFileName outputBuffer bin.
           resolveInput h (getNodeParameter h i) i itm = Inr (inputBuffer, originalFileName)
         \<and> int (length inputBuffer) \<le> maxBytes (maxInputSizeMb (getNodeParameter h i))
         \<and> toBuffer h (buildImage (getNodeParameter h i) inputBuffer) = Inr outputBuffer
         \<and> prepareBinaryData h outputBuffer
              (outFileName originalFileName (format (getNodeParameter h i)))
              (fst (getMimeAndExt (format (getNodeParameter h i)))) = Inr bin
         \<and> newItem = \<lparr>json = AList.update ''compression''
                (compression (roundDouble h) (length inputBuffer) (length outputBuffer)
                   (format (getNodeParameter h i)))
                (json itm),
              binary = Some (AList.update (outputBinaryPropertyName (getNodeParameter h i)) bin
                              (spread_binary (binary itm)))\<rparr>"
  using assms
  by (auto simp: processItem_def sizeGuard_def Let_def split: sum.splits prod.splits if_splits)

lemma update_keeps_keys: "fst ` set al \<subseteq> fst ` set (AList.update k v al)"
  by (simp add: dom_update subset_insertI)

lemma update_other_key: "k' \<noteq> k \<Longrightarrow> map_of (AList.update k v al) k' = map_of al k'"
  by (simp add: update_conv')

text \<open>The three records of the examples under the demo host, with the PNG defaults.\<close>

lemma buffer_buildImage: "buffer (buildImage p buf) = buf"
  by (simp add: buildImage_def chain_def Let_def)

lemma demo_name:
  "outFileName (Some ''a.tiff'') ''png'' = ''a.png''"
  "outFileName (Some ''c.tiff'') ''png'' = ''c.png''"
  "outFileName (Some ''t.tiff'') ''png'' = ''t.png''"
proof -
  have png: "''png'' \<in> {''jpg'', ''png'', ''webp'', ''avif''}" by simp
  have "path_name (path_parse ([] @ stem @ ''.'' @ ''tiff'' @ [])) = stem"
    if "stem \<noteq> []" "CHR ''/'' \<notin> set stem" for stem
    using that by (subst path_parse_dot) simp_all
  from this[of "''a''"] this[of "''c''"] this[of "''t''"]
  show "outFileName (Some ''a.tiff'') ''png'' = ''a.png''"
    and "outFileName (Some ''c.tiff'') ''png'' = ''c.png''"
    and "outFileName (Some ''t.tiff'') ''png'' = ''t.png''"
    using outFileName_Some[OF png] by simp_all
qed

lemma demo_first:
  "processItem (demo_host t (demo_parameters ''binary'' ''png'') demo_batch) 0 (demo_batch ! 0)
     = Inr (compressed ''a.tiff'' ''a.png'' [1, 2])"
  by (simp add: processItem_def resolveInput_def demo_host_def demo_parameters_def demo_batch_def
      photo_def compressed_def spread_binary_def sizeGuard_def maxBytes_def demo_codec_def
      buffer_buildImage demo_name getMimeAndExt_def compression_def percentReduction_def
      binary_lookup_def)

lemma demo_second:
  "processItem (demo_host t (demo_parameters ''binary'' ''png'') demo_batch) 1 (demo_batch ! 1)
     = Inl (NoBinaryData ''data'')"
  by (simp add: processItem_def resolveInput_def demo_host_def demo_parameters_def demo_batch_def
      photo_def binary_lookup_def object_prototype_names_def)

lemma demo_third:
  "processItem (demo_host t (demo_parameters ''binary'' ''png'') demo_batch) 2 (demo_batch ! 2)
     = Inr (compressed ''c.tiff'' ''c.png'' [5, 6])"
  by (simp add: processItem_def resolveInput_def demo_host_def demo_parameters_def demo_batch_def
      photo_def compressed_def spread_binary_def sizeGuard_def maxBytes_def demo_codec_def
      buffer_buildImage demo_name getMimeAndExt_def compression_def percentReduction_def
      binary_lookup_def)

lemma demo_strict: "\<not> continueOnFail (demo_host False p items)"
  by (simp add: demo_host_def)

lemma demo_tolerant: "continueOnFail (demo_host True p items)"
  by (simp add: demo_host_def)

lemma demo_length: "length demo_batch = 3"
  by (simp add: demo_batch_def)

text \<open>
  Claim C2 says that, without failure tolerance, the batch produces an output that holds the
  records processed before the first failure. The \<open>catch\<close> block rethrows the error, so
  \<open>execute\<close> ends with that error and returns nothing: in the batch of three, the first record
  is processed, the second fails, and the result is the error alone.
\<close>

theorem abort_discards_output:
  "processItem (demo_host False (demo_parameters ''binary'' ''png'') demo_batch) 0 (demo_batch ! 0)
     = Inr (compressed ''a.tiff'' ''a.png'' [1, 2])
   \<and> processItem (demo_host False (demo_parameters ''binary'' ''png'') demo_batch) 1 (demo_batch ! 1)
     = Inl (NoBinaryData ''data'')
   \<and> execute (demo_host False (demo_parameters ''binary'' ''png'') demo_batch) demo_batch
     = Inl (NoBinaryData ''data'')
   \<and> execute (demo_host False (demo_parameters ''binary'' ''png'') demo_batch) demo_batch
     \<noteq> Inr [[compressed ''a.tiff'' ''a.png'' [1, 2]]]"
proof -
  let ?h = "demo_host False (demo_parameters ''binary'' ''png'') demo_batch"
  have a: "\<forall>j. 0 \<le> j \<and> j < 1 \<longrightarrow> processItem ?h j (demo_batch ! j) = Inr ([compressed ''a.tiff'' ''a.png'' [1, 2]] ! j)"
    using demo_first[of False] by simp
  have "execute_loop ?h demo_batch 0 [] = Inl (NoBinaryData ''data'', [] @ map (\<lambda>j. [compressed ''a.tiff'' ''a.png'' [1, 2]] ! j) [0..<1])"
    by (rule execute_loop_abort[OF demo_strict _ _ a demo_second]) (simp_all add: demo_length)
  then have "execute ?h demo_batch = Inl (NoBinaryData ''data'')"
    by (simp add: execute_def)
  then show ?thesis using demo_first[of False] demo_second[of False] by simp
qed

text \<open>
  Claim C2, amended. Without failure tolerance, when \<open>n\<close> records are processed without error
  and the next one fails, the loop stops there: \<open>returnData\<close> holds exactly the \<open>n\<close> records
  processed, in order, the error of the failing record is thrown, and \<open>execute\<close> ends with
  that error in place of an output. The records after the failing one are never attempted:
  the outcome is the same whatever follows it in the batch.
\<close>

theorem abort_on_first_failure:
  assumes "\<not> continueOnFail h" and "n < length items" and "length outs = n"
    and "\<forall>j<n. processItem h j (items ! j) = Inr (outs ! j)"
    and "processItem h n (items ! n) = Inl e"
  shows "execute_loop h items 0 [] = Inl (e, outs)
       \<and> execute h items = Inl e
       \<and> (\<forall>rest. execute_loop h (take (Suc n) items @ rest) 0 [] = Inl (e, outs)
                 \<and> execute h (take (Suc n) items @ rest) = Inl e)"
proof -
  have outs: "map (\<lambda>j. outs ! j) [0..<n] = outs"
    using map_nth[of outs] assms(3) by simp
  have gen: "execute_loop h items' 0 [] = Inl (e, outs)"
    if "n < length items'" and "\<forall>j\<le>n. items' ! j = items ! j" for items'
  proof -
    have a: "\<forall>j. 0 \<le> j \<and> j < n \<longrightarrow> processItem h j (items' ! j) = Inr (outs ! j)"
      using assms(4) that(2) by simp
    have b: "processItem h n (items' ! n) = Inl e"
      using assms(5) that(2) by simp
    from execute_loop_abort[OF assms(1) that(1) _ a b, of "[]"] outs show ?thesis by simp
  qed
  have 1: "execute_loop h items 0 [] = Inl (e, outs)"
    using gen[of items] assms(2) by simp
  have 2: "execute_loop h (take (Suc n) items @ rest) 0 [] = Inl (e, outs)" for rest
    using assms(2) by (intro gen) (auto simp: nth_append)
  from 1 2 show ?thesis by (simp add: execute_def)
qed

theorem abort_on_first_failure_witness:
  "\<not> continueOnFail (demo_host False (demo_parameters ''binary'' ''png'') demo_batch)
   \<and> execute_loop (demo_host False (demo_parameters ''binary'' ''png'') demo_batch) demo_batch 0 []
       = Inl (NoBinaryData ''data'', [compressed ''a.tiff'' ''a.png'' [1, 2]])
   \<and> execute (demo_host False (demo_parameters ''binary'' ''png'') demo_batch) demo_batch
       = Inl (NoBinaryData ''data'')
   \<and> execute (demo_host False (demo_parameters ''binary'' ''png'') demo_batch)
        (take 2 demo_batch @ [photo ''d.tiff'' [], photo ''e.tiff'' [7]])
       = Inl (NoBinaryData ''data'')"
proof -
  let ?h = "demo_host False (demo_parameters ''binary'' ''png'') demo_batch"
  have 1: "\<not> continueOnFail ?h" by (rule demo_strict)
  have 2: "1 < length demo_batch" by (simp add: demo_length)
  have 3: "length [compressed ''a.tiff'' ''a.png'' [1, 2]] = 1" by simp
  have 4: "\<forall>j<1. processItem ?h j (demo_batch ! j) = Inr ([compressed ''a.tiff'' ''a.png'' [1, 2]] ! j)"
    using demo_first[of False] by simp
  have 5: "processItem ?h 1 (demo_batch ! 1) = Inl (NoBinaryData ''data'')"
    by (rule demo_second)
  from abort_on_first_failure[OF 1 2 3 4 5] 1 show ?thesis
    by (simp add: numeral_2_eq_2)
qed

text \<open>
  Claim C5. With failure tolerance, a batch of three records of which only the second fails
  yields three output records in the order of the input: the first and the third as they are
  processed, and for the second a record whose data is the \<open>error\<close> field with the message of
  the failure and whose binary payloads are those of the input record, unchanged.
\<close>

theorem tolerant_batch_of_three:
  assumes "continueOnFail h"
    and "processItem h 0 r1 = Inr o1"
    and "processItem h 1 r2 = Inl e"
    and "processItem h 2 r3 = Inr o3"
  shows "execute h [r1, r2, r3]
           = Inr [[o1, \<lparr>json = [(''error'', JString (message e))], binary = binary r2\<rparr>, o3]]"
proof -
  have upt: "[0..<length [r1, r2, r3]] = [0, 1, 2]"
    by (simp add: upt_conv_Cons)
  show ?thesis
    unfolding execute_def execute_loop_tolerant[OF assms(1)] upt
    using assms(2-4) by (simp add: errorItem_def)
qed

theorem tolerant_batch_of_three_witness:
  "execute (demo_host True (demo_parameters ''binary'' ''png'') demo_batch) demo_batch
     = Inr [[compressed ''a.tiff'' ''a.png'' [1, 2],
             \<lparr>json = [(''error'', JString (''No binary data found under property ''
                                           @ [CHR 0x22] @ ''data'' @ [CHR 0x22]))],
              binary = Some [(''other'', \<lparr>data = [9], mimeType = ''text/plain'', fileName = None\<rparr>)]\<rparr>,
             compressed ''c.tiff'' ''c.png'' [5, 6]]]"
proof -
  let ?h = "demo_host True (demo_parameters ''binary'' ''png'') demo_batch"
  have 1: "processItem ?h 0 (photo ''a.tiff'' [1, 2, 3, 4]) = Inr (compressed ''a.tiff'' ''a.png'' [1, 2])"
    using demo_first[of True] by (simp add: demo_batch_def)
  have 2: "processItem ?h 1 \<lparr>json = [(''id'', JString ''b'')],
       binary = Some [(''other'', \<lparr>data = [9], mimeType = ''text/plain'', fileName = None\<rparr>)]\<rparr>
       = Inl (NoBinaryData ''data'')"
    using demo_second[of True] by (simp add: demo_batch_def)
  have 3: "processItem ?h 2 (photo ''c.tiff'' [5, 6, 7, 8]) = Inr (compressed ''c.tiff'' ''c.png'' [5, 6])"
    using demo_third[of True] by (simp add: demo_batch_def)
  from tolerant_batch_of_three[OF demo_tolerant 1 2 3]
  have "execute ?h [photo ''a.tiff'' [1, 2, 3, 4], \<lparr>json = [(''id'', JString ''b'')],
       binary = Some [(''other'', \<lparr>data = [9], mimeType = ''text/plain'', fileName = None\<rparr>)]\<rparr>, photo ''c.tiff'' [5, 6, 7, 8]]
     = Inr [[compressed ''a.tiff'' ''a.png'' [1, 2],
             \<lparr>json = [(''error'', JString (message (NoBinaryData ''data'')))],
              binary = Some [(''other'', \<lparr>data = [9], mimeType = ''text/plain'', fileName = None\<rparr>)]\<rparr>,
             compressed ''c.tiff'' ''c.png'' [5, 6]]]"
    by simp
  then show ?thesis by (simp add: demo_batch_def)
qed

text \<open>
  Claim C9 says in passing that a record processed without error keeps all its fields
  beside the summary. The summary is stored under the key \<open>compression\<close> after the fields of
  the input are spread, so a field of that name is replaced: the photo that comes with
  \<open>compression = lossless\<close> leaves with the summary in its place.
\<close>

theorem success_replaces_compression_field:
  "map_of (json tagged_photo) ''compression'' = Some (JString ''lossless'')
   \<and> processItem (demo_host True (demo_parameters ''binary'' ''png'') [tagged_photo]) 0 tagged_photo
       = Inr \<lparr>json = [(''compression'', JObject [(''originalSize'', JNumber 4),
                         (''newSize'', JNumber 2), (''percentReduction'', JNumber 50),
                         (''format'', JString ''png'')]),
                      (''id'', JString ''t.tiff'')],
              binary = Some [(''data'', \<lparr>data = [1, 2], mimeType = ''image/png'',
                                          fileName = Some ''t.png''\<rparr>)]\<rparr>"
  by (simp add: processItem_def resolveInput_def demo_host_def demo_parameters_def
      tagged_photo_def spread_binary_def sizeGuard_def maxBytes_def demo_codec_def
      buffer_buildImage demo_name getMimeAndExt_def compression_def percentReduction_def
      binary_lookup_def)

text \<open>
  Claim C9, amended. With failure tolerance, the data of the output record of a failing
  record is the \<open>error\<close> field alone: no field of the input record is merged into it. A record
  that is processed without error keeps its fields except one named \<open>compression\<close>: its data
  is the data of the input record with the field \<open>compression\<close> set to the summary, so every
  key of the input is a key of the output, and every field but one named \<open>compression\<close> has
  its value unchanged.
\<close>

theorem failed_record_json:
  assumes "continueOnFail h" and "i < length items"
    and "processItem h i (items ! i) = Inl e"
  shows "\<exists>out. execute h items = Inr [out] \<and> length out = length items
      \<and> json (out ! i) = [(''error'', JString (message e))]
      \<and> binary (out ! i) = binary (items ! i)
      \<and> (\<forall>j newItem. j < length items \<and> processItem h j (items ! j) = Inr newItem \<longrightarrow>
            out ! j = newItem
          \<and> (\<exists>summary. json newItem = AList.update ''compression'' summary (json (items ! j)))
          \<and> fst ` set (json (items ! j)) \<subseteq> fst ` set (json newItem)
          \<and> (\<forall>k. k \<noteq> ''compression'' \<longrightarrow> map_of (json newItem) k = map_of (json (items ! j)) k))"
proof -
  let ?settle = "\<lambda>j. case processItem h j (items ! j) of
                        Inr newItem \<Rightarrow> newItem
                      | Inl err \<Rightarrow> errorItem err (items ! j)"
  let ?out = "map ?settle [0..<length items]"
  have ex: "execute h items = Inr [?out]"
    by (simp add: execute_def execute_loop_tolerant[OF assms(1)])
  have len: "length ?out = length items" by simp
  have at_i: "?out ! i = errorItem e (items ! i)"
    using assms(2,3) by simp
  have succ: "?out ! j = newItem
          \<and> (\<exists>summary. json newItem = AList.update ''compression'' summary (json (items ! j)))
          \<and> fst ` set (json (items ! j)) \<subseteq> fst ` set (json newItem)
          \<and> (\<forall>k. k \<noteq> ''compression'' \<longrightarrow> map_of (json newItem) k = map_of (json (items ! j)) k)"
    if "j < length items \<and> processItem h j (items ! j) = Inr newItem" for j newItem
  proof -
    from that have a: "?out ! j = newItem" by simp
    from processItem_success[of h j "items ! j" newItem] that
    obtain summary where b: "json newItem = AList.update ''compression'' summary (json (items ! j))"
      by auto
    show ?thesis
      using a b update_keeps_keys[of "json (items ! j)" "''compression''" summary]
        update_other_key[of _ "''compression''" summary "json (items ! j)"]
      by auto
  qed
  show ?thesis
    apply (rule exI[of _ ?out])
    using ex len at_i succ by (simp add: errorItem_def)
qed

theorem failed_record_json_witness:
  "\<exists>out. execute (demo_host True (demo_parameters ''binary'' ''png'') demo_batch) demo_batch = Inr [out]
     \<and> length out = 3
     \<and> json (out ! 1) = [(''error'', JString (''No binary data found under property ''
                                           @ [CHR 0x22] @ ''data'' @ [CHR 0x22]))]
     \<and> json (demo_batch ! 1) = [(''id'', JString ''b'')]
     \<and> out ! 0 = compressed ''a.tiff'' ''a.png'' [1, 2]
     \<and> map_of (json (out ! 0)) ''id'' = Some (JString ''a.tiff'')"
proof -
  let ?h = "demo_host True (demo_parameters ''binary'' ''png'') demo_batch"
  have 2: "1 < length demo_batch" by (simp add: demo_length)
  from failed_record_json[OF demo_tolerant 2 demo_second]
  obtain out where out: "execute ?h demo_batch = Inr [out]" "length out = length demo_batch"
    "json (out ! 1) = [(''error'', JString (message (NoBinaryData ''data'')))]"
    and succ: "\<forall>j newItem. j < length demo_batch \<and> processItem ?h j (demo_batch ! j) = Inr newItem \<longrightarrow>
            out ! j = newItem"
    by blast
  from succ demo_first[of True] have "out ! 0 = compressed ''a.tiff'' ''a.png'' [1, 2]"
    by (simp add: demo_length)
  with out show ?thesis
    by (simp add: demo_length demo_batch_def compressed_def)
qed

end
